theory Spec2Isabelle
  imports Complex_Main "HOL-Library.AList"
begin

section \<open>Errors\<close>

text \<open>
  The error kinds the cluster code distinguishes: \<open>state.ErrNoState\<close> of the state file,
  any other failure of the state file, the kinds \<open>errors.ResourcesExhausted\<close> and
  \<open>errors.Unavailable\<close>, the two errors a \<open>context.Context\<close> reports once it is done,
  and every other error (a provider or pool failure) with its message.
\<close>

datatype error =
    ErrNoState
  | ErrStateFile
  | ErrResourcesExhausted
  | ErrUnavailable
  | ErrCanceled
  | ErrDeadlineExceeded
  | ErrOther string

section \<open>The durable instance set: \<open>state.File\<close>\<close>

text \<open>
  An \<open>ec2.Instance\<close> with the three fields the cluster reads. The state file holds a Go
  \<open>map[string]*ec2.Instance\<close>; it is modelled as an association list, whose order stands
  for the order in which one \<open>range\<close> over the map yields its keys (Go leaves that order
  open, and the list is arbitrary). \<open>instances[id] == nil\<close> is \<open>map_of instances id = None\<close>.
  \<open>Unmarshal\<close> fails with \<open>state.ErrNoState\<close> when there is no state yet and with another
  error when the file cannot be read; \<open>Marshal\<close> fails, leaving the file as it is, when the
  file cannot be written.
\<close>

record ec2_instance =
  InstanceId :: string
  PublicDnsName :: string
  StateName :: string

type_synonym instances = "(string \<times> ec2_instance) list"

datatype file_contents = NoState | Unreadable | Stored instances

record state_file =
  contents :: file_contents
  writable :: bool

definition Unmarshal :: "state_file \<Rightarrow> error + instances" where
  "Unmarshal f =
     (case contents f of
        NoState \<Rightarrow> Inl ErrNoState
      | Unreadable \<Rightarrow> Inl ErrStateFile
      | Stored m \<Rightarrow> Inr m)"

definition Marshal :: "state_file \<Rightarrow> instances \<Rightarrow> error option \<times> state_file" where
  "Marshal f m =
     (if writable f then (None, f\<lparr>contents := Stored m\<rparr>) else (Some ErrStateFile, f))"

section \<open>The cluster and its capacity view\<close>

text \<open>
  \<open>pools\<close> is the Go \<open>map[string]pool.Pool\<close>; a value \<open>None\<close> is a nil interface, which the
  map can hold. \<open>Mux\<close> is what \<open>SetPools(vals(c.pools))\<close> installs. \<open>client.New\<close> is
  defined outside \<open>ec2cluster.go\<close>: it is a parameter that returns Go's pair (pool, error).
  The first loop of \<open>update\<close> is \<open>update_construct\<close>, the second \<open>update_discard\<close>.
\<close>

record 'p cluster =
  File :: state_file
  pools :: "(string \<times> 'p option) list"
  Mux :: "'p option list"
  MaxInstances :: int
  Spot :: bool

type_synonym 'p client_New = "string \<Rightarrow> 'p option \<times> error option"

definition baseurl :: "ec2_instance \<Rightarrow> string" where
  "baseurl inst = ''https://'' @ PublicDnsName inst @ '':9000/v1/''"

definition nil_pool :: "(string \<times> 'p option) list \<Rightarrow> string \<Rightarrow> bool" where
  "nil_pool ps k = (case map_of ps k of None \<Rightarrow> True | Some None \<Rightarrow> True | Some (Some p) \<Rightarrow> False)"

fun update_construct ::
  "'p client_New \<Rightarrow> instances \<Rightarrow> (string \<times> 'p option) list \<Rightarrow> (string \<times> 'p option) list" where
  "update_construct New [] ps = ps"
| "update_construct New ((k, inst) # rest) ps =
     (if nil_pool ps k
      then update_construct New rest (AList.update (InstanceId inst) (fst (New (baseurl inst))) ps)
      else update_construct New rest ps)"

definition update_discard ::
  "instances \<Rightarrow> (string \<times> 'p option) list \<Rightarrow> (string \<times> 'p option) list" where
  "update_discard instances ps = filter (\<lambda>(k, p). map_of instances k \<noteq> None) ps"

definition update :: "'p client_New \<Rightarrow> 'p cluster \<Rightarrow> 'p cluster" where
  "update New c =
     (case Unmarshal (File c) of
        Inl err \<Rightarrow> c
      | Inr instances \<Rightarrow>
          (let ps = update_discard instances (update_construct New instances (pools c))
           in c\<lparr>pools := ps, Mux := map snd ps\<rparr>))"

definition updateState ::
  "'p client_New \<Rightarrow> (instances \<Rightarrow> instances) \<Rightarrow> 'p cluster \<Rightarrow> 'p cluster" where
  "updateState New upd c =
     (let instances = (case Unmarshal (File c) of Inl err \<Rightarrow> [] | Inr m \<Rightarrow> m);
          (err, f) = Marshal (File c) (upd instances)
      in update New (c\<lparr>File := f\<rparr>))"

definition add :: "'p client_New \<Rightarrow> ec2_instance list \<Rightarrow> 'p cluster \<Rightarrow> 'p cluster" where
  "add New newInstances =
     updateState New
       (\<lambda>instances. foldl (\<lambda>m inst. AList.update (InstanceId inst) inst m) instances newInstances)"

definition remove_ids :: "'p client_New \<Rightarrow> string list \<Rightarrow> 'p cluster \<Rightarrow> 'p cluster" where
  "remove_ids New instanceIds =
     updateState New (\<lambda>instances. foldl (\<lambda>m k. AList.delete k m) instances instanceIds)"

section \<open>The state reconciler\<close>

definition ec2MaxFilter :: nat where
  "ec2MaxFilter = 200"

definition terminal :: "string \<Rightarrow> bool" where
  "terminal name =
     (name = ''shutting-down'' \<or> name = ''terminated'' \<or> name = ''stopping'' \<or> name = ''stopped'')"

text \<open>
  The provider's \<open>DescribeInstances\<close>, as a function of the page of ids it is asked about:
  an error, or the reservations with their instances. One reconcile cycle asks about
  disjoint pages, so a function gives every sequence of answers a cycle can see.
  A cycle is run against one state of the file: what other goroutines and processes
  write between the cycle's read and its \<open>remove\<close> is outside the model.
\<close>

type_synonym describe = "string list \<Rightarrow> error + ec2_instance list list"

fun mark_live :: "instances \<Rightarrow> (string \<Rightarrow> bool) \<Rightarrow> ec2_instance list \<Rightarrow> (string \<Rightarrow> bool)" where
  "mark_live instances live [] = live"
| "mark_live instances live (inst # rest) =
     (if map_of instances (InstanceId inst) = None then mark_live instances live rest
      else if terminal (StateName inst) then mark_live instances live rest
      else mark_live instances (live(InstanceId inst := True)) rest)"

text \<open>
  The paging loop. Beside the loop's result (the first error, or the map \<open>live\<close>) it
  returns the pages it has asked about, in order.
\<close>

function describe_pages ::
  "describe \<Rightarrow> instances \<Rightarrow> string list \<Rightarrow> (string \<Rightarrow> bool) \<Rightarrow>
     string list list \<times> (error + (string \<Rightarrow> bool))" where
  "describe_pages D instances instanceIds live =
     (if instanceIds = [] then ([], Inr live)
      else
        (let queryInstanceIds =
               (if length instanceIds > ec2MaxFilter then take ec2MaxFilter instanceIds
                else instanceIds);
             rest =
               (if length instanceIds > ec2MaxFilter then drop ec2MaxFilter instanceIds
                else [])
         in case D queryInstanceIds of
              Inl err \<Rightarrow> ([queryInstanceIds], Inl err)
            | Inr resp \<Rightarrow>
                (let (qs, r) =
                       describe_pages D instances rest (foldl (mark_live instances) live resp)
                 in (queryInstanceIds # qs, r))))"
  by pat_completeness auto
termination
  by (relation "measure (\<lambda>(D, instances, instanceIds, live). length instanceIds)")
     (auto simp: ec2MaxFilter_def)

declare describe_pages.simps [simp del]

definition reconcile ::
  "'p client_New \<Rightarrow> describe \<Rightarrow> 'p cluster \<Rightarrow> error option \<times> 'p cluster \<times> string list list" where
  "reconcile New D c =
     (case Unmarshal (File c) of
        Inl err \<Rightarrow> (if err = ErrNoState then (None, c, []) else (Some err, c, []))
      | Inr instances \<Rightarrow>
          (case describe_pages D instances (map fst instances) (\<lambda>k. False) of
             (qs, Inl err) \<Rightarrow> (Some err, c, qs)
           | (qs, Inr live) \<Rightarrow>
               (None, remove_ids New (filter (\<lambda>k. \<not> live k) (map fst instances)) c, qs)))"

text \<open>
  \<open>maintain\<close>: one reconcile at start, then one per EC2 tick and one \<open>update\<close> per state
  tick. A reconcile error is logged and the loop goes on; the log is the list of errors.
\<close>

datatype tick = Ec2Tick describe | UpdateTick

definition log_reconcile ::
  "'p client_New \<Rightarrow> describe \<Rightarrow> 'p cluster \<times> error list \<Rightarrow> 'p cluster \<times> error list" where
  "log_reconcile New D s =
     (case reconcile New D (fst s) of
        (None, c, qs) \<Rightarrow> (c, snd s)
      | (Some err, c, qs) \<Rightarrow> (c, snd s @ [err]))"

fun maintain_tick ::
  "'p client_New \<Rightarrow> 'p cluster \<times> error list \<Rightarrow> tick \<Rightarrow> 'p cluster \<times> error list" where
  "maintain_tick New s (Ec2Tick D) = log_reconcile New D s"
| "maintain_tick New s UpdateTick = (update New (fst s), snd s)"

definition maintain ::
  "'p client_New \<Rightarrow> describe \<Rightarrow> 'p cluster \<Rightarrow> tick list \<Rightarrow> 'p cluster \<times> error list" where
  "maintain New D c ticks = foldl (maintain_tick New) (log_reconcile New D (c, [])) ticks"


section \<open>Resources, requirements and instance configurations\<close>

text \<open>
  \<open>reflow.Resources\<close> (a \<open>map[string]float64\<close>) and its methods belong to package
  \<open>reflow\<close>, outside \<open>ec2cluster.go\<close>: a resource vector is a value of a type \<open>'r\<close>,
  and the zero value and the methods the cluster calls are parameters. \<open>r.Add(x, y)\<close>
  sets \<open>r\<close> to \<open>res_Add ops x y\<close>, and so on.
\<close>

record 'r resource_ops =
  res_zero :: 'r
  res_Add :: "'r \<Rightarrow> 'r \<Rightarrow> 'r"
  res_Sub :: "'r \<Rightarrow> 'r \<Rightarrow> 'r"
  res_Min :: "'r \<Rightarrow> 'r \<Rightarrow> 'r"
  LessEqualAll :: "'r \<Rightarrow> 'r \<Rightarrow> bool"
  ScaledDistance :: "'r \<Rightarrow> real"

record 'r requirements =
  req_Min :: 'r
  req_Max :: 'r

text \<open>
  A waiter: its requirements, its context and its channel \<open>c\<close> (field \<open>ch\<close>), the last
  two by identity. \<open>w.ctx.Err()\<close> is read from the environment.
\<close>

record 'r waiter = "'r requirements" +
  ctx :: nat
  ch :: nat

text \<open>
  An \<open>instanceConfig\<close> with the fields the loop reads (its \<open>Price\<close> is only handed to the
  launch), and the \<open>*instance\<close> a launch sends on \<open>done\<close>: its configuration, \<open>Err()\<close> and
  \<open>Instance()\<close>.
\<close>

record 'r instanceConfig =
  Type :: string
  Resources :: 'r

record 'r instance_t =
  Config :: "'r instanceConfig"
  Err :: "error option"
  Instance :: ec2_instance

section \<open>The grower loop\<close>

definition maxPending :: int where
  "maxPending = 5"

text \<open>
  The loop's variables, the cluster it works on, and three records of what it has done:
  \<open>inflight\<close>, the configurations of the launches started whose instance has not yet
  been received on \<open>done\<close>; \<open>notified\<close>, the channels closed by \<open>Notify\<close>; \<open>demoted\<close>, the
  configurations passed to \<open>instanceState.Unavailable\<close>. \<open>npending\<close>, the instance count
  and \<open>MaxInstances\<close> are Go \<open>int\<close>s; the loop only adds one to and takes one from
  \<open>npending\<close>, which stays between 0 and 5, and compares sums of counts, so they are
  integers here.
\<close>

record ('r, 'p) loop_state =
  waiters :: "'r waiter list"
  pending :: 'r
  npending :: int
  clus :: "'p cluster"
  inflight :: "'r instanceConfig list"
  notified :: "nat list"
  demoted :: "'r instanceConfig list"

text \<open>
  What one iteration reads from outside: \<open>instanceState.MinAvailable\<close> (defined outside
  \<open>ec2cluster.go\<close>; it returns Go's pair of a configuration and \<open>ok\<close>), taken as one
  function for the whole iteration, and the contexts' \<open>Err()\<close>. The \<open>select\<close> at the end
  of an iteration receives one event: the poll timer, a launched instance on \<open>done\<close>, or a
  new waiter on \<open>c.wait\<close>.
\<close>

record 'r iter_env =
  MinAvailable :: "'r \<Rightarrow> bool \<Rightarrow> 'r instanceConfig \<times> bool"
  ctx_Err :: "nat \<Rightarrow> error option"

datatype 'r event = Poll | Done "'r instance_t" | Wait "'r waiter"

text \<open>
  The inner \<open>for\<close> of the packing, entered with \<open>ok\<close> true. Its post statement
  \<open>i, best = i+1, wbest\<close> runs after every pass of the body, also after the pass in which
  \<open>MinAvailable\<close> fails.
\<close>

fun pack_extend ::
  "'r resource_ops \<Rightarrow> ('r \<Rightarrow> bool \<Rightarrow> 'r instanceConfig \<times> bool) \<Rightarrow> bool \<Rightarrow> 'r \<Rightarrow>
     'r instanceConfig \<Rightarrow> 'r waiter list \<Rightarrow> 'r instanceConfig \<times> 'r waiter list" where
  "pack_extend ops ma spot need best [] = (best, [])"
| "pack_extend ops ma spot need best (w # ws) =
     (let need' = res_Add ops need (req_Min w);
          (wbest, ok) = ma need' spot
      in if ok then pack_extend ops ma spot need' wbest ws else (wbest, ws))"

function pack ::
  "'r resource_ops \<Rightarrow> ('r \<Rightarrow> bool \<Rightarrow> 'r instanceConfig \<times> bool) \<Rightarrow> bool \<Rightarrow>
     'r waiter list \<Rightarrow> 'r instanceConfig list" where
  "pack ops ma spot [] = []"
| "pack ops ma spot (w # ws) =
     (let need = res_Add ops (res_zero ops) (req_Min w);
          (best, ok) = ma need spot
      in if \<not> ok then pack ops ma spot ws
         else (let (b, rest) = pack_extend ops ma spot need best ws
               in b # pack ops ma spot rest))"
  by pat_completeness auto
termination
proof (relation "measure (\<lambda>(ops, ma, spot, ws). length ws)")
  show "wf (measure (\<lambda>(ops, ma, spot, ws). length ws))" by simp
next
  fix ops :: "'r resource_ops" and ma spot and w :: "'r waiter" and ws
  show "((ops, ma, spot, ws), ops, ma, spot, w # ws) \<in> measure (\<lambda>(ops, ma, spot, ws). length ws)"
    by simp
next
  fix ops :: "'r resource_ops" and ma spot and w :: "'r waiter" and ws need x best ok y b rest
  assume "y = pack_extend ops ma spot need best ws" and "(b, rest) = y"
  then have r: "rest = snd (pack_extend ops ma spot need best ws)"
    by (metis snd_conv)
  have "length (snd (pack_extend ops ma spot nd bs xs)) \<le> length xs" for nd bs xs
    by (induction xs arbitrary: nd bs) (auto simp: Let_def split: prod.splits intro: le_SucI)
  then show "((ops, ma, spot, rest), ops, ma, spot, w # ws) \<in> measure (\<lambda>(ops, ma, spot, ws). length ws)"
    unfolding r by (simp add: le_imp_less_Suc)
qed

text \<open>
  The launch loop: it returns the new \<open>pending\<close> and \<open>npending\<close> and the configurations it
  has started a launch for. \<open>plan\<close> is an iteration up to its \<open>select\<close>; the flag it returns
  is \<open>needPoll\<close>. \<open>sort.Slice\<close> is not stable: \<open>sort_key\<close> gives one of the orders it may
  produce.
\<close>

fun launch_loop ::
  "'r resource_ops \<Rightarrow> int \<Rightarrow> int \<Rightarrow> 'r instanceConfig list \<Rightarrow> 'r \<Rightarrow> int \<Rightarrow>
     'r \<times> int \<times> 'r instanceConfig list" where
  "launch_loop ops n mx [] pend np = (pend, np, [])"
| "launch_loop ops n mx (config # todo) pend np =
     (if np < maxPending \<and> n + np < mx
      then (let (pend', np', started) =
                  launch_loop ops n mx todo (res_Add ops pend (Resources config)) (np + 1)
            in (pend', np', config # started))
      else (pend, np, []))"

definition plan ::
  "'r resource_ops \<Rightarrow> 'r iter_env \<Rightarrow> ('r, 'p) loop_state \<Rightarrow> ('r, 'p) loop_state \<times> bool" where
  "plan ops env s =
     (let instances = (case Unmarshal (File (clus s)) of Inl err \<Rightarrow> [] | Inr m \<Rightarrow> m);
          n = int (length instances);
          ws = sort_key (\<lambda>w. ScaledDistance ops (req_Min w)) (waiters s);
          todo = pack ops (MinAvailable env) (Spot (clus s)) ws
      in if ws \<noteq> [] \<and> todo = [] then (s\<lparr>waiters := ws\<rparr>, True)
         else (let (pend, np, started) =
                     launch_loop ops n (MaxInstances (clus s)) todo (pending s) (npending s)
               in (s\<lparr>waiters := ws, pending := pend, npending := np,
                      inflight := inflight s @ started\<rparr>, False)))"

text \<open>
  The scan of the waiters after a successful launch: the waiters kept, the waiters
  notified, and the capacity left.
\<close>

fun scan ::
  "'r resource_ops \<Rightarrow> (nat \<Rightarrow> error option) \<Rightarrow> 'r \<Rightarrow> 'r waiter list \<Rightarrow>
     'r waiter list \<times> 'r waiter list \<times> 'r" where
  "scan ops cerr available [] = ([], [], available)"
| "scan ops cerr available (w # rest) =
     (if cerr (ctx w) \<noteq> None then scan ops cerr available rest
      else if LessEqualAll ops (req_Min w) available
      then (let tmp = res_Min ops (req_Max w) available;
                (ws, signalled, left) = scan ops cerr (res_Sub ops available tmp) rest
            in (ws, w # signalled, left))
      else (let (ws, signalled, left) = scan ops cerr available rest
            in (w # ws, signalled, left)))"

definition done_case ::
  "'r resource_ops \<Rightarrow> 'p client_New \<Rightarrow> 'r iter_env \<Rightarrow> ('r, 'p) loop_state \<Rightarrow> 'r instance_t \<Rightarrow>
     ('r, 'p) loop_state" where
  "done_case ops New env s inst =
     (let s1 = s\<lparr>pending := res_Sub ops (pending s) (Resources (Config inst)),
                  npending := npending s - 1,
                  inflight := remove1 (Config inst) (inflight s)\<rparr>
      in case Err inst of
           None \<Rightarrow>
             (let cl = add New [Instance inst] (clus s1);
                  (ws, signalled, left) =
                     scan ops (ctx_Err env) (Resources (Config inst)) (waiters s1)
              in s1\<lparr>clus := cl, waiters := ws, notified := notified s1 @ map ch signalled\<rparr>)
         | Some err \<Rightarrow>
             (if err = ErrUnavailable then s1\<lparr>demoted := demoted s1 @ [Config inst]\<rparr> else s1))"

definition wait_case :: "'r iter_env \<Rightarrow> ('r, 'p) loop_state \<Rightarrow> 'r waiter \<Rightarrow> ('r, 'p) loop_state" where
  "wait_case env s w =
     s\<lparr>waiters := filter (\<lambda>w'. ctx_Err env (ctx w') = None) (waiters s) @ [w]\<rparr>"

fun select_case ::
  "'r resource_ops \<Rightarrow> 'p client_New \<Rightarrow> 'r iter_env \<Rightarrow> ('r, 'p) loop_state \<Rightarrow> 'r event \<Rightarrow>
     ('r, 'p) loop_state" where
  "select_case ops New env s Poll = s"
| "select_case ops New env s (Done inst) = done_case ops New env s inst"
| "select_case ops New env s (Wait w) = wait_case env s w"

definition iteration ::
  "'r resource_ops \<Rightarrow> 'p client_New \<Rightarrow> 'r iter_env \<Rightarrow> ('r, 'p) loop_state \<Rightarrow> 'r event \<Rightarrow>
     ('r, 'p) loop_state" where
  "iteration ops New env s ev = select_case ops New env (fst (plan ops env s)) ev"

fun enabled :: "'r resource_ops \<Rightarrow> 'r iter_env \<Rightarrow> ('r, 'p) loop_state \<Rightarrow> 'r event \<Rightarrow> bool" where
  "enabled ops env s Poll = snd (plan ops env s)"
| "enabled ops env s (Done inst) = (Config inst \<in> set (inflight (fst (plan ops env s))))"
| "enabled ops env s (Wait w) = True"

text \<open>
  The states the loop can be in at the start of an iteration: the initial one; the one
  an iteration leaves, for an event that can occur (the poll timer only when it was set,
  an instance on \<open>done\<close> only for a launch in flight); and any of them after the state
  file and the pools were changed from outside the loop.
\<close>

definition init_state :: "'r resource_ops \<Rightarrow> 'p cluster \<Rightarrow> ('r, 'p) loop_state" where
  "init_state ops cl =
     \<lparr>waiters = [], pending = res_zero ops, npending = 0, clus = cl, inflight = [],
      notified = [], demoted = []\<rparr>"

inductive reachable :: "'r resource_ops \<Rightarrow> 'p client_New \<Rightarrow> ('r, 'p) loop_state \<Rightarrow> bool"
  for ops :: "'r resource_ops" and New :: "'p client_New" where
  start: "reachable ops New (init_state ops cl)"
| iterate: "reachable ops New s \<Longrightarrow> enabled ops env s ev \<Longrightarrow> reachable ops New (iteration ops New env s ev)"
| outside: "reachable ops New s \<Longrightarrow>
            reachable ops New (s\<lparr>clus := (clus s)\<lparr>File := f, pools := ps, Mux := mx\<rparr>\<rparr>)"

section \<open>The allocation coordinator\<close>

text \<open>
  Modelled from the spec: \<open>instanceState.Available\<close> is defined outside \<open>ec2cluster.go\<close>.
  \<open>IsSatisfiable(requirement)\<close> is true iff some admissible shape (ignoring current
  demotion) could ever satisfy the requirement, that is, iff the requirement is
  less-or-equal in every dimension to the capacity of some configured instance type.
\<close>

definition Available :: "'r resource_ops \<Rightarrow> 'r instanceConfig list \<Rightarrow> 'r \<Rightarrow> bool" where
  "Available ops configs need = list_ex (\<lambda>config. LessEqualAll ops need (Resources config)) configs"

text \<open>
  What \<open>Allocate\<close> meets in its retry loop, one entry per \<open>select\<close> that fires: the context
  is done (with \<open>ctx.Err()\<close>), the waiter's channel is closed, or the ticker ticks; the last
  two carry what the \<open>pool.Allocate\<close> that follows returns, Go's pair (alloc, error).
  The list is the part of the run observed so far: when it ends the loop is still waiting.
  \<open>need\<close> is taken to hand its waiter to the grower loop and return.
\<close>

datatype 'a select_event =
    CtxDone error
  | NeedCh "'a option \<times> error option"
  | Tick "'a option \<times> error option"

text \<open>
  The result: what \<open>Allocate\<close> has returned (\<open>None\<close> while it has not), and the waiters it
  has sent to the grower loop through \<open>need\<close>.
\<close>

record ('r, 'a) allocate_result =
  returned :: "('a option \<times> error option) option"
  registered :: "'r requirements list"

fun retry_loop ::
  "'r requirements \<Rightarrow> 'r requirements list \<Rightarrow> 'a select_event list \<Rightarrow> ('r, 'a) allocate_result" where
  "retry_loop req reg [] = \<lparr>returned = None, registered = reg\<rparr>"
| "retry_loop req reg (CtxDone err # es) = \<lparr>returned = Some (None, Some err), registered = reg\<rparr>"
| "retry_loop req reg (NeedCh (alloc, err) # es) =
     (if err = None then \<lparr>returned = Some (alloc, None), registered = reg\<rparr>
      else retry_loop req (reg @ [req]) es)"
| "retry_loop req reg (Tick (alloc, err) # es) =
     (if err = None then \<lparr>returned = Some (alloc, None), registered = reg\<rparr>
      else retry_loop req reg es)"

text \<open>
  \<open>Allocate\<close>, given the configured instance types, \<open>c.Size()\<close>, what the first
  \<open>pool.Allocate\<close> returns if it is called, and the events of the retry loop.
\<close>

definition Allocate ::
  "'r resource_ops \<Rightarrow> 'r instanceConfig list \<Rightarrow> int \<Rightarrow> 'a option \<times> error option \<Rightarrow>
     'a select_event list \<Rightarrow> 'r requirements \<Rightarrow> ('r, 'a) allocate_result" where
  "Allocate ops configs sz first es req =
     (if \<not> Available ops configs (req_Min req)
      then \<lparr>returned = Some (None, Some ErrResourcesExhausted), registered = []\<rparr>
      else if sz > 0 \<and> snd first = None
      then \<lparr>returned = Some (fst first, None), registered = []\<rparr>
      else retry_loop req [req] es)"
section \<open>Notions used to state the properties\<close>

text \<open>
  The pages of at most \<open>ec2MaxFilter\<close> ids into which the paging loop cuts a list of ids.
\<close>

function pages :: "'a list \<Rightarrow> 'a list list" where
  "pages ids =
     (if ids = [] then []
      else if length ids > ec2MaxFilter then take ec2MaxFilter ids # pages (drop ec2MaxFilter ids)
      else [ids])"
  by pat_completeness auto
termination
  by (relation "measure length") (auto simp: ec2MaxFilter_def)

declare pages.simps [simp del]

text \<open>
  All the instances the provider reports in its answers to the pages \<open>qs\<close>, and whether
  they report the id \<open>k\<close> in a state that is none of the four terminal ones.
\<close>

definition reported :: "(string list \<Rightarrow> ec2_instance list list) \<Rightarrow> string list list \<Rightarrow> ec2_instance list" where
  "reported R qs = concat (concat (map R qs))"

definition reported_live :: "ec2_instance list \<Rightarrow> string \<Rightarrow> bool" where
  "reported_live rep k = list_ex (\<lambda>i. InstanceId i = k \<and> \<not> terminal (StateName i)) rep"

text \<open>
  An id is dead when no answer reports it alive. \<open>dead_as_claimed\<close> is the wording of the
  specification: reported in a terminal state, or absent from the answers. The two agree
  for an id with a single reported state (\<open>single_state\<close>).
\<close>

definition dead :: "ec2_instance list \<Rightarrow> string \<Rightarrow> bool" where
  "dead rep k = (\<not> reported_live rep k)"

definition dead_as_claimed :: "ec2_instance list \<Rightarrow> string \<Rightarrow> bool" where
  "dead_as_claimed rep k =
     (list_ex (\<lambda>i. InstanceId i = k \<and> terminal (StateName i)) rep
      \<or> \<not> list_ex (\<lambda>i. InstanceId i = k) rep)"

definition single_state :: "ec2_instance list \<Rightarrow> string \<Rightarrow> bool" where
  "single_state rep k =
     (\<forall>i \<in> set rep. \<forall>j \<in> set rep. InstanceId i = k \<and> InstanceId j = k \<longrightarrow> StateName i = StateName j)"

text \<open>
  The durable instance set of a cluster: what its state file holds, and nothing when the
  file has no state or cannot be read.
\<close>

definition durable :: "'p cluster \<Rightarrow> instances" where
  "durable c = (case contents (File c) of Stored m \<Rightarrow> m | NoState \<Rightarrow> [] | Unreadable \<Rightarrow> [])"

text \<open>
  A provider whose answers are those of \<open>D\<close> without the instances that are not in \<open>m\<close>.
\<close>

definition ignore_unrelated :: "instances \<Rightarrow> describe \<Rightarrow> describe" where
  "ignore_unrelated m D q =
     (case D q of
        Inl err \<Rightarrow> Inl err
      | Inr resp \<Rightarrow> Inr (map (filter (\<lambda>i. map_of m (InstanceId i) \<noteq> None)) resp))"

text \<open>
  Every entry is stored under the id of its instance, as \<open>add\<close> stores it.
\<close>

definition keyed_by_id :: "instances \<Rightarrow> bool" where
  "keyed_by_id m = list_all (\<lambda>(k, inst). InstanceId inst = k) m"

text \<open>
  The packing as the specification words it: when the next waiter makes the accumulated
  requirement unsatisfiable, the bucket is closed with the shape found for the prefix
  before that waiter, and the next accumulation starts at that waiter.
\<close>

fun pack_extend_claim ::
  "'r resource_ops \<Rightarrow> ('r \<Rightarrow> bool \<Rightarrow> 'r instanceConfig \<times> bool) \<Rightarrow> bool \<Rightarrow> 'r \<Rightarrow>
     'r instanceConfig \<Rightarrow> 'r waiter list \<Rightarrow> 'r instanceConfig \<times> 'r waiter list" where
  "pack_extend_claim ops ma spot need best [] = (best, [])"
| "pack_extend_claim ops ma spot need best (w # ws) =
     (let need' = res_Add ops need (req_Min w);
          (wbest, ok) = ma need' spot
      in if ok then pack_extend_claim ops ma spot need' wbest ws else (best, w # ws))"

function pack_claim ::
  "'r resource_ops \<Rightarrow> ('r \<Rightarrow> bool \<Rightarrow> 'r instanceConfig \<times> bool) \<Rightarrow> bool \<Rightarrow>
     'r waiter list \<Rightarrow> 'r instanceConfig list" where
  "pack_claim ops ma spot [] = []"
| "pack_claim ops ma spot (w # ws) =
     (let need = res_Add ops (res_zero ops) (req_Min w);
          (best, ok) = ma need spot
      in if \<not> ok then pack_claim ops ma spot ws
         else (let (b, rest) = pack_extend_claim ops ma spot need best ws
               in b # pack_claim ops ma spot rest))"
  by pat_completeness auto
termination
proof (relation "measure (\<lambda>(ops, ma, spot, ws). length ws)")
  show "wf (measure (\<lambda>(ops, ma, spot, ws). length ws))" by simp
next
  fix ops :: "'r resource_ops" and ma spot and w :: "'r waiter" and ws
  show "((ops, ma, spot, ws), ops, ma, spot, w # ws) \<in> measure (\<lambda>(ops, ma, spot, ws). length ws)"
    by simp
next
  fix ops :: "'r resource_ops" and ma spot and w :: "'r waiter" and ws need x best ok y b rest
  assume "y = pack_extend_claim ops ma spot need best ws" and "(b, rest) = y"
  then have r: "rest = snd (pack_extend_claim ops ma spot need best ws)"
    by (metis snd_conv)
  have "length (snd (pack_extend_claim ops ma spot nd bs xs)) \<le> length xs" for nd bs xs
    by (induction xs arbitrary: nd bs) (auto simp: Let_def split: prod.splits intro: le_SucI)
  then show "((ops, ma, spot, rest), ops, ma, spot, w # ws) \<in> measure (\<lambda>(ops, ma, spot, ws). length ws)"
    unfolding r by (simp add: le_imp_less_Suc)
qed

text \<open>
  The number of launches that both caps leave room for, the launches an iteration plans,
  and the sum of the resources of a list of configurations, added up from \<open>start\<close> in the
  order of the list.
\<close>

definition launch_room :: "int \<Rightarrow> int \<Rightarrow> int \<Rightarrow> nat" where
  "launch_room n mx np = nat (min (maxPending - np) (mx - (n + np)))"

definition planned :: "'r resource_ops \<Rightarrow> 'r iter_env \<Rightarrow> ('r, 'p) loop_state \<Rightarrow> 'r instanceConfig list" where
  "planned ops env s =
     pack ops (MinAvailable env) (Spot (clus s))
       (sort_key (\<lambda>w. ScaledDistance ops (req_Min w)) (waiters s))"

definition total :: "'r resource_ops \<Rightarrow> 'r \<Rightarrow> 'r instanceConfig list \<Rightarrow> 'r" where
  "total ops start configs = foldl (res_Add ops) start (map Resources configs)"

text \<open>
  Resource arithmetic is exact when subtracting what was added gives back the value, and
  subtraction commutes with a later addition. Sums and differences of integers, rationals
  and reals are exact; those of floating-point numbers need not be.
\<close>

definition exact_arithmetic :: "'r resource_ops \<Rightarrow> bool" where
  "exact_arithmetic ops =
     ((\<forall>a b. res_Sub ops (res_Add ops a b) b = a)
      \<and> (\<forall>a b x. res_Sub ops (res_Add ops a b) x = res_Add ops (res_Sub ops a x) b))"

text \<open>
  The capacity still remaining after the scan has passed the waiters \<open>ws\<close>; whether the
  scan, with the capacity \<open>left\<close> remaining, signals a waiter or keeps it; and what remains
  after the waiter.
\<close>

definition remaining :: "'r resource_ops \<Rightarrow> (nat \<Rightarrow> error option) \<Rightarrow> 'r \<Rightarrow> 'r waiter list \<Rightarrow> 'r" where
  "remaining ops cerr available ws = snd (snd (scan ops cerr available ws))"

definition satisfied :: "'r resource_ops \<Rightarrow> (nat \<Rightarrow> error option) \<Rightarrow> 'r \<Rightarrow> 'r waiter \<Rightarrow> bool" where
  "satisfied ops cerr left w = (cerr (ctx w) = None \<and> LessEqualAll ops (req_Min w) left)"

definition kept :: "'r resource_ops \<Rightarrow> (nat \<Rightarrow> error option) \<Rightarrow> 'r \<Rightarrow> 'r waiter \<Rightarrow> bool" where
  "kept ops cerr left w = (cerr (ctx w) = None \<and> \<not> LessEqualAll ops (req_Min w) left)"

definition consume :: "'r resource_ops \<Rightarrow> (nat \<Rightarrow> error option) \<Rightarrow> 'r \<Rightarrow> 'r waiter \<Rightarrow> 'r" where
  "consume ops cerr left w =
     (if satisfied ops cerr left w then res_Sub ops left (res_Min ops (req_Max w) left) else left)"

text \<open>
  The events after which the retry loop goes on: an allocation attempt that failed.
\<close>

definition goes_on :: "'a select_event \<Rightarrow> bool" where
  "goes_on ev =
     (case ev of CtxDone err \<Rightarrow> False | NeedCh r \<Rightarrow> snd r \<noteq> None | Tick r \<Rightarrow> snd r \<noteq> None)"

text \<open>
  The states the loop reaches when it alone adds to the durable instance set: the set
  starts within the ceiling, and outside the loop it only shrinks, as the reconciler makes
  it do.
\<close>

inductive reachable_alone :: "'r resource_ops \<Rightarrow> 'p client_New \<Rightarrow> ('r, 'p) loop_state \<Rightarrow> bool"
  for ops :: "'r resource_ops" and New :: "'p client_New" where
  start_within:
    "int (length (durable cl)) \<le> MaxInstances cl \<Longrightarrow> reachable_alone ops New (init_state ops cl)"
| iterate_alone:
    "reachable_alone ops New s \<Longrightarrow> enabled ops env s ev \<Longrightarrow>
     reachable_alone ops New (iteration ops New env s ev)"
| shrunk:
    "reachable_alone ops New s \<Longrightarrow>
     length (durable ((clus s)\<lparr>File := f, pools := ps, Mux := mx\<rparr>)) \<le> length (durable (clus s)) \<Longrightarrow>
     reachable_alone ops New (s\<lparr>clus := (clus s)\<lparr>File := f, pools := ps, Mux := mx\<rparr>\<rparr>)"

section \<open>Example data\<close>

definition ex_inst :: "string \<Rightarrow> string \<Rightarrow> ec2_instance" where
  "ex_inst k st = \<lparr>InstanceId = k, PublicDnsName = k @ ''.ec2'', StateName = st\<rparr>"

definition ex_New :: "string client_New" where
  "ex_New url = (Some url, None)"

definition ex_cluster :: "instances \<Rightarrow> string cluster" where
  "ex_cluster m =
     \<lparr>File = \<lparr>contents = Stored m, writable = True\<rparr>, pools = [], Mux = [],
      MaxInstances = 10, Spot = False\<rparr>"

definition ex_durable :: instances where
  "ex_durable =
     [(''i-1'', ex_inst ''i-1'' ''running''), (''i-2'', ex_inst ''i-2'' ''running''),
      (''i-3'', ex_inst ''i-3'' ''running'')]"

definition ex_response :: "string list \<Rightarrow> ec2_instance list list" where
  "ex_response q =
     [[ex_inst ''i-1'' ''running'', ex_inst ''i-2'' ''terminated''], [ex_inst ''i-9'' ''running'']]"

definition ex_New_fail :: "string client_New" where
  "ex_New_fail url = (None, Some (ErrOther ''parse error''))"

definition int_ops :: "int resource_ops" where
  "int_ops = \<lparr>res_zero = 0, res_Add = (+), res_Sub = (-), res_Min = min, LessEqualAll = (\<le>),
      ScaledDistance = real_of_int\<rparr>"

definition ex_waiter :: "int \<Rightarrow> int \<Rightarrow> nat \<Rightarrow> int waiter" where
  "ex_waiter lo hi k = \<lparr>req_Min = lo, req_Max = hi, ctx = k, ch = k\<rparr>"

definition ex_small :: "int instanceConfig" where
  "ex_small = \<lparr>Type = ''small'', Resources = 1\<rparr>"

definition ex_none :: "int instanceConfig" where
  "ex_none = \<lparr>Type = [], Resources = 0\<rparr>"

definition ex_MinAvailable :: "int \<Rightarrow> bool \<Rightarrow> int instanceConfig \<times> bool" where
  "ex_MinAvailable need spot = (if need \<le> 1 then (ex_small, True) else (ex_none, False))"

definition ex_env :: "int iter_env" where
  "ex_env = \<lparr>MinAvailable = ex_MinAvailable, ctx_Err = (\<lambda>k. None)\<rparr>"

definition ex_state1 :: "(int, string) loop_state" where
  "ex_state1 = iteration int_ops ex_New ex_env (init_state int_ops (ex_cluster [])) (Wait (ex_waiter 1 1 1))"

definition ex_state2 :: "(int, string) loop_state" where
  "ex_state2 = iteration int_ops ex_New ex_env ex_state1 (Wait (ex_waiter 1 1 2))"

definition ex_env_cancel :: "int iter_env" where
  "ex_env_cancel =
     \<lparr>MinAvailable = ex_MinAvailable, ctx_Err = (\<lambda>k. if k = 7 then Some ErrCanceled else None)\<rparr>"

definition ex_big :: "int instanceConfig" where
  "ex_big = \<lparr>Type = ''big'', Resources = 4\<rparr>"

definition ex_launched :: "int instance_t" where
  "ex_launched = \<lparr>Config = ex_big, Err = None, Instance = ex_inst ''i-1'' ''running''\<rparr>"

definition ex_waiting :: "(int, string) loop_state" where
  "ex_waiting =
     \<lparr>waiters = [ex_waiter 1 2 5, ex_waiter 3 3 6, ex_waiter 1 1 7, ex_waiter 1 5 8],
      pending = 4, npending = 1, clus = ex_cluster [], inflight = [ex_big], notified = [],
      demoted = []\<rparr>"

definition ex_id :: "nat \<Rightarrow> string" where
  "ex_id n = replicate n (CHR ''i'')"

definition ex_many :: instances where
  "ex_many = map (\<lambda>n. (ex_id n, ex_inst (ex_id n) ''running'')) [0..<201]"

definition ex_last_page_response :: "string list \<Rightarrow> ec2_instance list list" where
  "ex_last_page_response q = (if length q = 1 then [[ex_inst (ex_id 200) ''running'']] else [[]])"

definition ex_last_page_fails :: describe where
  "ex_last_page_fails q = (if length q = 1 then Inl (ErrOther ''RequestLimitExceeded'') else Inr [[]])"

text \<open>
  A cluster with a ceiling of one instance; the loop's first state on a durable set that
  already holds three; and the state after the loop has started one launch and another
  process has added an instance to the shared state file.
\<close>

definition ex_ceiling_one :: "instances \<Rightarrow> string cluster" where
  "ex_ceiling_one m = (ex_cluster m)\<lparr>MaxInstances := 1\<rparr>"

definition ex_full :: "(int, string) loop_state" where
  "ex_full = init_state int_ops (ex_ceiling_one ex_durable)"

definition ex_shared :: "(int, string) loop_state" where
  "ex_shared =
     (let s1 = iteration int_ops ex_New ex_env (init_state int_ops (ex_ceiling_one [])) (Wait (ex_waiter 1 1 5));
          s2 = iteration int_ops ex_New ex_env s1 (Wait (ex_waiter 1 1 6))
      in s2\<lparr>clus := (clus s2)\<lparr>File := \<lparr>contents = Stored [(''i-9'', ex_inst ''i-9'' ''running'')], writable = True\<rparr>,
                               pools := [], Mux := []\<rparr>\<rparr>)"

text \<open>
  An arithmetic that rounds, as the \<open>float64\<close> sums and differences of \<open>reflow.Resources\<close>
  do: a result of 8 or more is rounded down to an even number. With it, two launches of 7
  and of 2, the first of which fails after the second was started.
\<close>

definition coarse :: "int \<Rightarrow> int" where
  "coarse x = (if x < 8 then x else 2 * (x div 2))"

definition coarse_ops :: "int resource_ops" where
  "coarse_ops =
     \<lparr>res_zero = 0, res_Add = (\<lambda>a b. coarse (a + b)), res_Sub = (\<lambda>a b. coarse (a - b)),
      res_Min = min, LessEqualAll = (\<le>), ScaledDistance = real_of_int\<rparr>"

definition ex_seven :: "int instanceConfig" where
  "ex_seven = \<lparr>Type = ''seven'', Resources = 7\<rparr>"

definition ex_two :: "int instanceConfig" where
  "ex_two = \<lparr>Type = ''two'', Resources = 2\<rparr>"

definition ex_MinAvailable2 :: "int \<Rightarrow> bool \<Rightarrow> int instanceConfig \<times> bool" where
  "ex_MinAvailable2 need spot =
     (if need \<le> 2 then (ex_two, True) else if need \<le> 7 then (ex_seven, True) else (ex_none, False))"

definition ex_env2 :: "int iter_env" where
  "ex_env2 = \<lparr>MinAvailable = ex_MinAvailable2, ctx_Err = (\<lambda>k. None)\<rparr>"

definition ex_env2_cancel :: "int iter_env" where
  "ex_env2_cancel =
     \<lparr>MinAvailable = ex_MinAvailable2, ctx_Err = (\<lambda>k. if k = 5 then Some ErrCanceled else None)\<rparr>"

definition ex_failed :: "int instance_t" where
  "ex_failed =
     \<lparr>Config = ex_seven, Err = Some (ErrOther ''launch failed''), Instance = ex_inst [] []\<rparr>"

definition ex_drift1 :: "(int, string) loop_state" where
  "ex_drift1 =
     iteration coarse_ops ex_New ex_env2 (init_state coarse_ops (ex_cluster [])) (Wait (ex_waiter 7 7 5))"

definition ex_drift2 :: "(int, string) loop_state" where
  "ex_drift2 = iteration coarse_ops ex_New ex_env2_cancel ex_drift1 (Wait (ex_waiter 2 2 6))"

definition ex_drift3 :: "(int, string) loop_state" where
  "ex_drift3 = iteration coarse_ops ex_New ex_env2 ex_drift2 (Done ex_failed)"
section \<open>Properties of the state reconciler\<close>

lemmas ex_defs = ex_inst_def ex_New_def ex_cluster_def ex_durable_def ex_response_def

lemma pages_concat: "concat (pages ids) = ids"
proof (induction ids rule: pages.induct)
  case (1 ids)
  show ?case
  proof (cases "ids = []")
    case True
    then show ?thesis by (simp add: pages.simps)
  next
    case False
    show ?thesis
    proof (cases "length ids > ec2MaxFilter")
      case True
      with False 1 show ?thesis by (subst pages.simps) simp
    next
      case F2: False
      with False show ?thesis by (subst pages.simps) simp
    qed
  qed
qed

lemma pages_bound: "q \<in> set (pages ids) \<Longrightarrow> q \<noteq> [] \<and> length q \<le> ec2MaxFilter"
proof (induction ids rule: pages.induct)
  case (1 ids)
  show ?case
  proof (cases "ids = []")
    case True
    with 1(2) show ?thesis by (simp add: pages.simps)
  next
    case False
    show ?thesis
    proof (cases "length ids > ec2MaxFilter")
      case True
      from 1(2) False True have "q = take ec2MaxFilter ids \<or> q \<in> set (pages (drop ec2MaxFilter ids))"
        by (subst (asm) pages.simps) simp
      then show ?thesis
      proof
        assume "q = take ec2MaxFilter ids"
        with False show ?thesis by (auto simp: ec2MaxFilter_def)
      next
        assume "q \<in> set (pages (drop ec2MaxFilter ids))"
        with 1(1) False True show ?thesis by simp
      qed
    next
      case F2: False
      from 1(2) False F2 have "q = ids" by (subst (asm) pages.simps) simp
      with False F2 show ?thesis by simp
    qed
  qed
qed

lemma delete_all: "foldl (\<lambda>m k. AList.delete k m) m ks = filter (\<lambda>(k, v). k \<notin> set ks) m"
proof (induction ks arbitrary: m)
  case Nil
  then show ?case by simp
next
  case (Cons a ks)
  have "filter (\<lambda>(k, v). k \<notin> set ks) (AList.delete a m) = filter (\<lambda>(k, v). k \<notin> set (a # ks)) m"
    by (induction m) (auto simp: AList.delete_eq)
  with Cons show ?case by simp
qed

lemma mark_live_iff:
  "mark_live m live rep k = (live k \<or> (map_of m k \<noteq> None \<and> reported_live rep k))"
proof (induction rep arbitrary: live)
  case Nil
  then show ?case by (simp add: reported_live_def)
next
  case (Cons i rep)
  show ?case
    by (cases "InstanceId i = k") (auto simp: Cons reported_live_def)
qed

lemma foldl_mark_live_iff:
  "foldl (mark_live m) live resp k = (live k \<or> (map_of m k \<noteq> None \<and> reported_live (concat resp) k))"
proof (induction resp arbitrary: live)
  case Nil
  then show ?case by (simp add: reported_live_def)
next
  case (Cons r resp)
  have "foldl (mark_live m) live (r # resp) k = foldl (mark_live m) (mark_live m live r) resp k"
    by simp
  also have "\<dots> = (mark_live m live r k \<or> (map_of m k \<noteq> None \<and> reported_live (concat resp) k))"
    by (rule Cons)
  also have "\<dots> = (live k \<or> (map_of m k \<noteq> None \<and> reported_live (concat (r # resp)) k))"
    unfolding mark_live_iff by (auto simp: reported_live_def)
  finally show ?case .
qed

lemma foldl_mark_live_fun:
  "foldl (mark_live m) live resp =
     (\<lambda>k. live k \<or> (map_of m k \<noteq> None \<and> reported_live (concat resp) k))"
  by (rule ext) (rule foldl_mark_live_iff)

lemma describe_pages_ok:
  "describe_pages (\<lambda>q. Inr (R q)) m ids live =
     (pages ids, Inr (\<lambda>k. live k \<or> (map_of m k \<noteq> None \<and> reported_live (reported R (pages ids)) k)))"
proof (induction ids arbitrary: live rule: pages.induct)
  case (1 ids)
  show ?case
  proof (cases "ids = []")
    case True
    then show ?thesis
      by (simp add: describe_pages.simps pages.simps reported_def reported_live_def)
  next
    case False
    show ?thesis
    proof (cases "length ids > ec2MaxFilter")
      case True
      have p: "pages ids = take ec2MaxFilter ids # pages (drop ec2MaxFilter ids)"
        using False True by (subst pages.simps) simp
      show ?thesis
        using False True
        apply (subst describe_pages.simps)
        apply (simp add: 1 p reported_def foldl_mark_live_fun Let_def)
        apply (auto simp: reported_live_def fun_eq_iff)
        done
    next
      case F2: False
      have p: "pages ids = [ids]"
        using False F2 by (subst pages.simps) simp
      have e: "describe_pages (\<lambda>q. Inr (R q)) m [] l = ([], Inr l)" for l
        by (simp add: describe_pages.simps)
      show ?thesis
        using False F2
        apply (subst describe_pages.simps)
        apply (simp add: p e reported_def foldl_mark_live_fun Let_def)
        done
    qed
  qed
qed

lemma remove_ids_stored:
  assumes "contents (File c) = Stored m" and "writable (File c)"
  shows "remove_ids New ks c =
           update New (c\<lparr>File := (File c)\<lparr>contents := Stored (filter (\<lambda>(k, v). k \<notin> set ks) m)\<rparr>\<rparr>)"
  using assms by (simp add: remove_ids_def updateState_def Unmarshal_def Marshal_def delete_all)

lemma remove_ids_readonly:
  assumes "\<not> writable (File c)"
  shows "remove_ids New ks c = update New c"
  using assms by (simp add: remove_ids_def updateState_def Marshal_def)

lemma update_File: "File (update New c) = File c"
  by (simp add: update_def Let_def split: sum.splits)

lemma durable_update: "durable (update New c) = durable c"
  by (simp add: durable_def update_File)

lemma filter_dead_keys:
  "filter (\<lambda>(k, v). k \<notin> set (filter (\<lambda>k. \<not> live k) (map fst m))) m = filter (\<lambda>(k, v). live k) m"
  by (rule filter_cong) (auto simp: rev_image_eqI)

lemma dead_claimed_iff:
  assumes "single_state rep k"
  shows "dead rep k = dead_as_claimed rep k"
proof (cases "\<exists>i \<in> set rep. InstanceId i = k")
  case True
  then obtain i where i: "i \<in> set rep" "InstanceId i = k" by blast
  have same: "terminal (StateName j) = terminal (StateName i)"
    if "j \<in> set rep" "InstanceId j = k" for j
  proof -
    from assms i that have "StateName j = StateName i"
      unfolding single_state_def by blast
    then show ?thesis by simp
  qed
  have "reported_live rep k = (\<not> terminal (StateName i))"
  proof
    assume "reported_live rep k"
    then obtain x where x: "x \<in> set rep" "InstanceId x = k" "\<not> terminal (StateName x)"
      unfolding reported_live_def list_ex_iff by blast
    from same [OF x(1,2)] x(3) show "\<not> terminal (StateName i)" by blast
  next
    assume "\<not> terminal (StateName i)"
    with i show "reported_live rep k"
      unfolding reported_live_def list_ex_iff by blast
  qed
  moreover have "dead_as_claimed rep k = terminal (StateName i)"
  proof
    assume "dead_as_claimed rep k"
    then have "\<exists>x \<in> set rep. InstanceId x = k \<and> terminal (StateName x)"
      unfolding dead_as_claimed_def list_ex_iff using i by blast
    then obtain x where x: "x \<in> set rep" "InstanceId x = k" "terminal (StateName x)"
      by blast
    from same [OF x(1,2)] x(3) show "terminal (StateName i)" by blast
  next
    assume "terminal (StateName i)"
    with i show "dead_as_claimed rep k"
      unfolding dead_as_claimed_def list_ex_iff by blast
  qed
  ultimately show ?thesis by (simp add: dead_def)
next
  case False
  then have "\<not> reported_live rep k" "dead_as_claimed rep k"
    unfolding dead_as_claimed_def reported_live_def list_ex_iff by blast+
  then show ?thesis by (simp add: dead_def)
qed

text \<open>
  Claim C3. For every durable instance set \<open>m\<close> and every answer \<open>R\<close> of the provider, a
  reconcile cycle over a state file that can be read and written
  \<^item> asks about the ids in the pages \<open>pages (map fst m)\<close>: non-empty, at most \<open>ec2MaxFilter\<close>
    (200) ids each, and together all the ids in order;
  \<^item> removes exactly the dead entries and keeps every other entry as it is, also when
    there are several pages: the durable set it leaves is \<open>m\<close> filtered by \<open>\<not> dead\<close>, and
    the capacity view is rebuilt from it;
  \<^item> an entry is dead iff no response reports it in a state other than shutting-down,
    terminated, stopping or stopped; when an id has one reported state, that is: it is
    reported in one of these four states, or it is absent from the responses.
\<close>

theorem reconcile_removes_exactly_dead:
  assumes "contents (File c) = Stored m" and "writable (File c)"
  shows "reconcile New (\<lambda>q. Inr (R q)) c =
           (None,
            update New (c\<lparr>File := (File c)\<lparr>contents :=
               Stored (filter (\<lambda>(k, inst). \<not> dead (reported R (pages (map fst m))) k) m)\<rparr>\<rparr>),
            pages (map fst m))
         \<and> concat (pages (map fst m)) = map fst m
         \<and> (\<forall>q \<in> set (pages (map fst m)). q \<noteq> [] \<and> length q \<le> ec2MaxFilter)
         \<and> (\<forall>k. single_state (reported R (pages (map fst m))) k \<longrightarrow>
                dead (reported R (pages (map fst m))) k
                  = dead_as_claimed (reported R (pages (map fst m))) k)"
proof -
  let ?rep = "reported R (pages (map fst m))"
  let ?live = "\<lambda>k. False \<or> (map_of m k \<noteq> None \<and> reported_live ?rep k)"
  have dp: "describe_pages (\<lambda>q. Inr (R q)) m (map fst m) (\<lambda>k. False) = (pages (map fst m), Inr ?live)"
    by (rule describe_pages_ok)
  have f: "filter (\<lambda>(k, v). ?live k) m = filter (\<lambda>(k, inst). \<not> dead ?rep k) m"
    by (rule filter_cong) (auto simp: dead_def weak_map_of_SomeI)
  have "reconcile New (\<lambda>q. Inr (R q)) c =
          (None, remove_ids New (filter (\<lambda>k. \<not> ?live k) (map fst m)) c, pages (map fst m))"
    using assms(1) by (simp add: reconcile_def Unmarshal_def dp)
  also have "remove_ids New (filter (\<lambda>k. \<not> ?live k) (map fst m)) c =
      update New (c\<lparr>File := (File c)\<lparr>contents := Stored (filter (\<lambda>(k, v). ?live k) m)\<rparr>\<rparr>)"
    using assms by (simp only: remove_ids_stored filter_dead_keys)
  finally have main: "reconcile New (\<lambda>q. Inr (R q)) c =
      (None, update New (c\<lparr>File := (File c)\<lparr>contents := Stored (filter (\<lambda>(k, inst). \<not> dead ?rep k) m)\<rparr>\<rparr>),
       pages (map fst m))"
    by (simp only: f)
  have b: "\<forall>q \<in> set (pages (map fst m)). q \<noteq> [] \<and> length q \<le> ec2MaxFilter"
    using pages_bound by blast
  have d: "\<forall>k. single_state ?rep k \<longrightarrow> dead ?rep k = dead_as_claimed ?rep k"
    using dead_claimed_iff by blast
  show ?thesis
    using main pages_concat [of "map fst m"] b d by simp
qed

lemma ex_many_keys: "map fst ex_many = map ex_id [0..<201]"
  by (simp add: ex_many_def o_def)

lemma ex_upt_201: "[0..<201] = [0..<200] @ [200::nat]"
proof -
  have "[0..<Suc 200] = [0..<200] @ [200::nat]"
    by (rule upt_Suc_append) simp
  then show ?thesis by simp
qed

lemma ex_many_pages: "pages (map fst ex_many) = [map ex_id [0..<200], [ex_id 200]]"
proof -
  have a: "pages (map ex_id [0..<201]) = take 200 (map ex_id [0..<201]) # pages (drop 200 (map ex_id [0..<201]))"
    by (subst pages.simps) (simp add: ec2MaxFilter_def)
  have t: "take 200 (map ex_id [0..<201]) = map ex_id [0..<200]"
    unfolding ex_upt_201 by simp
  have d: "drop 200 (map ex_id [0..<201]) = [ex_id 200]"
    unfolding ex_upt_201 by simp
  have b: "pages [ex_id 200] = [[ex_id 200]]"
    by (subst pages.simps) (simp add: ec2MaxFilter_def)
  show ?thesis
    unfolding ex_many_keys a t d b ..
qed

lemma ex_id_inj: "ex_id n = ex_id m \<longleftrightarrow> n = m"
proof
  assume "ex_id n = ex_id m"
  then have "length (ex_id n) = length (ex_id m)" by simp
  then show "n = m" by (simp add: ex_id_def)
qed simp

lemma ex_many_last:
  "filter (\<lambda>(k, inst). k = ex_id 200) ex_many = [(ex_id 200, ex_inst (ex_id 200) ''running'')]"
proof -
  note s = ex_upt_201
  have "filter (\<lambda>(k, inst). k = ex_id 200)
          (map (\<lambda>n. (ex_id n, ex_inst (ex_id n) ''running'')) [0..<200]) = []"
    by (auto simp: filter_empty_conv ex_id_inj)
  then show ?thesis
    unfolding ex_many_def s by simp
qed

theorem reconcile_removes_exactly_dead_witness:
  "(contents (File (ex_cluster ex_durable)) = Stored ex_durable
   \<and> writable (File (ex_cluster ex_durable))
   \<and> reconcile ex_New (\<lambda>q. Inr (ex_response q)) (ex_cluster ex_durable) =
       (None,
        \<lparr>File = \<lparr>contents = Stored [(''i-1'', ex_inst ''i-1'' ''running'')], writable = True\<rparr>,
         pools = [(''i-1'', Some ''https://i-1.ec2:9000/v1/'')],
         Mux = [Some ''https://i-1.ec2:9000/v1/''], MaxInstances = 10, Spot = False\<rparr>,
        [[''i-1'', ''i-2'', ''i-3'']]))
   \<and> (snd (snd (reconcile ex_New (\<lambda>q. Inr (ex_last_page_response q)) (ex_cluster ex_many)))
       = [map ex_id [0..<200], [ex_id 200]]
   \<and> durable (fst (snd (reconcile ex_New (\<lambda>q. Inr (ex_last_page_response q)) (ex_cluster ex_many))))
       = [(ex_id 200, ex_inst (ex_id 200) ''running'')])"
proof -
  have small: "contents (File (ex_cluster ex_durable)) = Stored ex_durable
   \<and> writable (File (ex_cluster ex_durable))
   \<and> reconcile ex_New (\<lambda>q. Inr (ex_response q)) (ex_cluster ex_durable) =
       (None,
        \<lparr>File = \<lparr>contents = Stored [(''i-1'', ex_inst ''i-1'' ''running'')], writable = True\<rparr>,
         pools = [(''i-1'', Some ''https://i-1.ec2:9000/v1/'')],
         Mux = [Some ''https://i-1.ec2:9000/v1/''], MaxInstances = 10, Spot = False\<rparr>,
        [[''i-1'', ''i-2'', ''i-3'']])"
  proof -
    have h1: "contents (File (ex_cluster ex_durable)) = Stored ex_durable"
      by (simp add: ex_cluster_def)
    have h2: "writable (File (ex_cluster ex_durable))"
      by (simp add: ex_cluster_def)
    have p: "pages (map fst ex_durable) = [[''i-1'', ''i-2'', ''i-3'']]"
      by (simp add: pages.simps ex_durable_def ec2MaxFilter_def)
    from reconcile_removes_exactly_dead [OF h1 h2, of ex_New ex_response]
    show ?thesis
      unfolding p
      by (simp add: ex_defs update_def Unmarshal_def update_discard_def nil_pool_def baseurl_def
          dead_def reported_def reported_live_def terminal_def)
  qed
  have large: "snd (snd (reconcile ex_New (\<lambda>q. Inr (ex_last_page_response q)) (ex_cluster ex_many)))
       = [map ex_id [0..<200], [ex_id 200]]
   \<and> durable (fst (snd (reconcile ex_New (\<lambda>q. Inr (ex_last_page_response q)) (ex_cluster ex_many))))
       = [(ex_id 200, ex_inst (ex_id 200) ''running'')]"
  proof -
    have h1: "contents (File (ex_cluster ex_many)) = Stored ex_many"
      by (simp add: ex_cluster_def)
    have h2: "writable (File (ex_cluster ex_many))"
      by (simp add: ex_cluster_def)
    have rep: "reported ex_last_page_response [map ex_id [0..<200], [ex_id 200]]
                 = [ex_inst (ex_id 200) ''running'']"
      by (simp add: reported_def ex_last_page_response_def)
    have dd: "(\<lambda>(k, inst). \<not> dead [ex_inst (ex_id 200) ''running''] k) = (\<lambda>(k, inst :: ec2_instance). k = ex_id 200)"
      by (auto simp: dead_def reported_live_def ex_inst_def terminal_def fun_eq_iff)
    note T = reconcile_removes_exactly_dead [OF h1 h2, of ex_New ex_last_page_response, THEN conjunct1]
    show ?thesis
      unfolding T ex_many_pages rep dd ex_many_last
      by (simp add: durable_update) (simp add: durable_def)
  qed
  from small large show ?thesis by (rule conjI)
qed

lemma describe_pages_fail:
  "q \<in> set (pages ids) \<Longrightarrow> D q = Inl e0 \<Longrightarrow>
   \<exists>pre qf post e. pages ids = pre @ qf # post \<and> (\<forall>p \<in> set pre. \<exists>r. D p = Inr r) \<and> D qf = Inl e
      \<and> describe_pages D m ids live = (pre @ [qf], Inl e)"
proof (induction ids arbitrary: live rule: pages.induct)
  case (1 ids)
  show ?case
  proof (cases "ids = []")
    case True
    with 1(2) show ?thesis by (simp add: pages.simps)
  next
    case False
    show ?thesis
    proof (cases "length ids > ec2MaxFilter")
      case True
      let ?q0 = "take ec2MaxFilter ids" and ?rest = "drop ec2MaxFilter ids"
      have p: "pages ids = ?q0 # pages ?rest"
        using False True by (subst pages.simps) simp
      show ?thesis
      proof (cases "D ?q0")
        case (Inl e)
        have "describe_pages D m ids live = ([] @ [?q0], Inl e)"
          using False True Inl by (subst describe_pages.simps) simp
        moreover have "pages ids = [] @ ?q0 # pages ?rest" using p by simp
        moreover have "\<forall>p \<in> set []. \<exists>r. D p = Inr r" by simp
        ultimately have "pages ids = [] @ ?q0 # pages ?rest \<and> (\<forall>p \<in> set []. \<exists>r. D p = Inr r)
            \<and> D ?q0 = Inl e \<and> describe_pages D m ids live = ([] @ [?q0], Inl e)"
          using Inl by simp
        then show ?thesis by (intro exI)
      next
        case (Inr resp)
        with 1(2,3) p have "q \<in> set (pages ?rest)" by auto
        from 1(1) [OF False True this 1(3), of "foldl (mark_live m) live resp"]
        obtain pre qf post e where
          ih: "pages ?rest = pre @ qf # post" "\<forall>p \<in> set pre. \<exists>r. D p = Inr r" "D qf = Inl e"
              "describe_pages D m ?rest (foldl (mark_live m) live resp) = (pre @ [qf], Inl e)"
          by blast
        have "describe_pages D m ids live = ((?q0 # pre) @ [qf], Inl e)"
          using False True Inr ih(4) by (subst describe_pages.simps) simp
        moreover have "pages ids = (?q0 # pre) @ qf # post" using p ih(1) by simp
        moreover have "\<forall>p \<in> set (?q0 # pre). \<exists>r. D p = Inr r" using ih(2) Inr by simp
        ultimately have "pages ids = (?q0 # pre) @ qf # post \<and> (\<forall>p \<in> set (?q0 # pre). \<exists>r. D p = Inr r)
            \<and> D qf = Inl e \<and> describe_pages D m ids live = ((?q0 # pre) @ [qf], Inl e)"
          using ih(3) by simp
        then show ?thesis by (intro exI)
      qed
    next
      case F2: False
      have p: "pages ids = [ids]"
        using False F2 by (subst pages.simps) simp
      with 1(2,3) have "D ids = Inl e0" by simp
      then have "describe_pages D m ids live = ([] @ [ids], Inl e0)"
        using False F2 by (subst describe_pages.simps) simp
      moreover have "pages ids = [] @ ids # []" using p by simp
      ultimately have "pages ids = [] @ ids # [] \<and> (\<forall>p \<in> set []. \<exists>r. D p = Inr r)
            \<and> D ids = Inl e0 \<and> describe_pages D m ids live = ([] @ [ids], Inl e0)"
        using \<open>D ids = Inl e0\<close> by simp
      then show ?thesis by (intro exI)
    qed
  qed
qed

text \<open>
  Claim C8. If the describe call of any page fails, reconcile returns the error of the
  first failing page and the cluster, with its durable instance set, is exactly what it
  was, although the pages before the failing one were answered; \<open>maintain\<close> logs the error
  and goes on with the unchanged cluster.
\<close>

theorem reconcile_describe_failure:
  assumes "contents (File c) = Stored m" and "q \<in> set (pages (map fst m))" and "D q = Inl e0"
  shows "\<exists>pre qf post e. pages (map fst m) = pre @ qf # post
           \<and> (\<forall>p \<in> set pre. \<exists>r. D p = Inr r) \<and> D qf = Inl e
           \<and> reconcile New D c = (Some e, c, pre @ [qf])
           \<and> log_reconcile New D (c, logged) = (c, logged @ [e])"
proof -
  from assms(2,3) have "\<exists>pre qf post e. pages (map fst m) = pre @ qf # post
      \<and> (\<forall>p \<in> set pre. \<exists>r. D p = Inr r) \<and> D qf = Inl e
      \<and> describe_pages D m (map fst m) (\<lambda>k. False) = (pre @ [qf], Inl e)"
    by (rule describe_pages_fail)
  then obtain pre qf post e where
    h: "pages (map fst m) = pre @ qf # post" "\<forall>p \<in> set pre. \<exists>r. D p = Inr r" "D qf = Inl e"
       "describe_pages D m (map fst m) (\<lambda>k. False) = (pre @ [qf], Inl e)"
    by blast
  have r: "reconcile New D c = (Some e, c, pre @ [qf])"
    using assms(1) h(4) by (simp add: reconcile_def Unmarshal_def)
  then have "log_reconcile New D (c, logged) = (c, logged @ [e])"
    by (simp add: log_reconcile_def)
  with h r have "pages (map fst m) = pre @ qf # post
           \<and> (\<forall>p \<in> set pre. \<exists>r. D p = Inr r) \<and> D qf = Inl e
           \<and> reconcile New D c = (Some e, c, pre @ [qf])
           \<and> log_reconcile New D (c, logged) = (c, logged @ [e])"
    by simp
  then show ?thesis by (intro exI)
qed

theorem reconcile_describe_failure_witness:
  "(reconcile ex_New (\<lambda>q. Inl (ErrOther ''RequestLimitExceeded'')) (ex_cluster ex_durable) =
     (Some (ErrOther ''RequestLimitExceeded''), ex_cluster ex_durable, [[''i-1'', ''i-2'', ''i-3'']])
   \<and> log_reconcile ex_New (\<lambda>q. Inl (ErrOther ''RequestLimitExceeded'')) (ex_cluster ex_durable, []) =
     (ex_cluster ex_durable, [ErrOther ''RequestLimitExceeded'']))
   \<and> (reconcile ex_New ex_last_page_fails (ex_cluster ex_many) =
     (Some (ErrOther ''RequestLimitExceeded''), ex_cluster ex_many, [map ex_id [0..<200], [ex_id 200]]))"
proof -
  have small: "reconcile ex_New (\<lambda>q. Inl (ErrOther ''RequestLimitExceeded'')) (ex_cluster ex_durable) =
     (Some (ErrOther ''RequestLimitExceeded''), ex_cluster ex_durable, [[''i-1'', ''i-2'', ''i-3'']])
   \<and> log_reconcile ex_New (\<lambda>q. Inl (ErrOther ''RequestLimitExceeded'')) (ex_cluster ex_durable, []) =
     (ex_cluster ex_durable, [ErrOther ''RequestLimitExceeded''])"
  proof -
    have h1: "contents (File (ex_cluster ex_durable)) = Stored ex_durable"
      by (simp add: ex_cluster_def)
    have p: "pages (map fst ex_durable) = [[''i-1'', ''i-2'', ''i-3'']]"
      by (simp add: pages.simps ex_durable_def ec2MaxFilter_def)
    have h2: "[''i-1'', ''i-2'', ''i-3''] \<in> set (pages (map fst ex_durable))"
      by (simp add: p)
    have h3: "(\<lambda>q. Inl (ErrOther ''RequestLimitExceeded'')) [''i-1'', ''i-2'', ''i-3'']
                = (Inl (ErrOther ''RequestLimitExceeded'') :: error + ec2_instance list list)"
      by simp
    from reconcile_describe_failure [OF h1 h2, of "\<lambda>q. Inl (ErrOther ''RequestLimitExceeded'')" "ErrOther ''RequestLimitExceeded''" ex_New "[]", OF h3]
    obtain pre qf post e where
      a: "pages (map fst ex_durable) = pre @ qf # post"
      and b: "(Inl (ErrOther ''RequestLimitExceeded'') :: error + ec2_instance list list) = Inl e"
      and c: "reconcile ex_New (\<lambda>q. Inl (ErrOther ''RequestLimitExceeded'')) (ex_cluster ex_durable)
               = (Some e, ex_cluster ex_durable, pre @ [qf])"
      and d: "log_reconcile ex_New (\<lambda>q. Inl (ErrOther ''RequestLimitExceeded'')) (ex_cluster ex_durable, [])
               = (ex_cluster ex_durable, [] @ [e])"
      by blast
    from a p have "pre = [] \<and> qf = [''i-1'', ''i-2'', ''i-3'']"
      by (cases pre) auto
    with b c d show ?thesis by simp
  qed
  have large: "reconcile ex_New ex_last_page_fails (ex_cluster ex_many) =
     (Some (ErrOther ''RequestLimitExceeded''), ex_cluster ex_many, [map ex_id [0..<200], [ex_id 200]])"
  proof -
    have h1: "contents (File (ex_cluster ex_many)) = Stored ex_many"
      by (simp add: ex_cluster_def)
    have h2: "[ex_id 200] \<in> set (pages (map fst ex_many))"
      by (simp add: ex_many_pages)
    have h3: "ex_last_page_fails [ex_id 200] = Inl (ErrOther ''RequestLimitExceeded'')"
      by (simp add: ex_last_page_fails_def)
    from h1 h2 h3 have "\<exists>pre qf post e. pages (map fst ex_many) = pre @ qf # post
             \<and> (\<forall>p \<in> set pre. \<exists>r. ex_last_page_fails p = Inr r) \<and> ex_last_page_fails qf = Inl e
             \<and> reconcile ex_New ex_last_page_fails (ex_cluster ex_many) = (Some e, ex_cluster ex_many, pre @ [qf])
             \<and> log_reconcile ex_New ex_last_page_fails (ex_cluster ex_many, []) = (ex_cluster ex_many, [] @ [e])"
      by (rule reconcile_describe_failure)
    then obtain pre qf post e where
      a: "pages (map fst ex_many) = pre @ qf # post"
      and ok: "\<forall>p \<in> set pre. \<exists>r. ex_last_page_fails p = Inr r"
      and b: "ex_last_page_fails qf = Inl e"
      and c: "reconcile ex_New ex_last_page_fails (ex_cluster ex_many) = (Some e, ex_cluster ex_many, pre @ [qf])"
      by blast
    have l: "length (map ex_id [0..<200]) \<noteq> 1" by simp
    from a have "pre @ qf # post = [map ex_id [0..<200], [ex_id 200]]"
      by (simp add: ex_many_pages)
    then have "(pre = [] \<and> qf = map ex_id [0..<200]) \<or> (pre = [map ex_id [0..<200]] \<and> qf = [ex_id 200])"
      by (auto simp: append_eq_Cons_conv Cons_eq_append_conv)
    moreover have "ex_last_page_fails (map ex_id [0..<200]) = Inr [[]]"
      using l by (simp add: ex_last_page_fails_def del: length_map)
    ultimately have "pre = [map ex_id [0..<200]] \<and> qf = [ex_id 200]"
      using b by auto
    with b c h3 show ?thesis by simp
  qed
  from small large show ?thesis by (rule conjI)
qed

lemma mark_live_ignore:
  "mark_live m live (filter (\<lambda>i. map_of m (InstanceId i) \<noteq> None) rep) = mark_live m live rep"
  by (induction rep arbitrary: live) auto

lemma foldl_mark_live_ignore:
  "foldl (mark_live m) live (map (filter (\<lambda>i. map_of m (InstanceId i) \<noteq> None)) resp)
     = foldl (mark_live m) live resp"
  by (induction resp arbitrary: live) (simp_all del: not_None_eq add: mark_live_ignore)

lemma describe_pages_ignore:
  "describe_pages (ignore_unrelated m D) m ids live = describe_pages D m ids live"
proof (induction D m ids live rule: describe_pages.induct)
  case (1 D m ids live)
  show ?case
  proof (cases "ids = []")
    case True
    then show ?thesis by (simp add: describe_pages.simps)
  next
    case False
    let ?q = "if length ids > ec2MaxFilter then take ec2MaxFilter ids else ids"
    let ?rest = "if length ids > ec2MaxFilter then drop ec2MaxFilter ids else []"
    show ?thesis
    proof (cases "D ?q")
      case (Inl e)
      then show ?thesis
        using False
        by (subst describe_pages.simps, subst (2) describe_pages.simps)
           (simp add: ignore_unrelated_def Let_def)
    next
      case (Inr resp)
      from 1 [OF False refl refl Inr]
      have ih: "describe_pages (ignore_unrelated m D) m ?rest (foldl (mark_live m) live resp)
                  = describe_pages D m ?rest (foldl (mark_live m) live resp)" .
      show ?thesis
        using False Inr ih
        by (subst describe_pages.simps, subst (2) describe_pages.simps)
           (simp del: not_None_eq add: ignore_unrelated_def Let_def foldl_mark_live_ignore)
    qed
  qed
qed

lemma remove_ids_durable:
  "\<exists>ks'. set ks' \<subseteq> set ks \<and>
     durable (remove_ids New ks c) = filter (\<lambda>(k, inst). k \<notin> set ks') (durable c)"
proof (cases "writable (File c)")
  case False
  then have "durable (remove_ids New ks c) = filter (\<lambda>(k, inst). k \<notin> set []) (durable c)"
    by (simp add: remove_ids_readonly durable_update)
  then show ?thesis by (intro exI [of _ "[]"]) simp
next
  case True
  show ?thesis
  proof (cases "contents (File c)")
    case (Stored m)
    from remove_ids_stored [OF Stored True, of New ks]
    have "durable (remove_ids New ks c) = filter (\<lambda>(k, inst). k \<notin> set ks) (durable c)"
      using Stored by (simp add: durable_update) (simp add: durable_def)
    then show ?thesis by (intro exI [of _ ks]) simp
  next
    case NoState
    then have "durable (remove_ids New ks c) = filter (\<lambda>(k, inst). k \<notin> set []) (durable c)"
      using True
      by (simp add: remove_ids_def updateState_def Unmarshal_def Marshal_def durable_update delete_all)
         (simp add: durable_def)
    then show ?thesis by (intro exI [of _ "[]"]) simp
  next
    case Unreadable
    then have "durable (remove_ids New ks c) = filter (\<lambda>(k, inst). k \<notin> set []) (durable c)"
      using True
      by (simp add: remove_ids_def updateState_def Unmarshal_def Marshal_def durable_update delete_all)
         (simp add: durable_def)
    then show ?thesis by (intro exI [of _ "[]"]) simp
  qed
qed

text \<open>
  Claim C10. Reconcile never adds an entry to the durable instance set: the set it leaves
  is the old one without the entries of some ids that were in it. Instances that the
  provider reports and the durable set does not hold are ignored entirely: dropping them
  from every response changes nothing in what reconcile returns.
\<close>

theorem reconcile_only_removes:
  "(\<exists>ks. set ks \<subseteq> fst ` set (durable c) \<and>
       durable (fst (snd (reconcile New D c))) = filter (\<lambda>(k, inst). k \<notin> set ks) (durable c))
   \<and> reconcile New (ignore_unrelated (durable c) D) c = reconcile New D c"
proof
  show "\<exists>ks. set ks \<subseteq> fst ` set (durable c) \<and>
       durable (fst (snd (reconcile New D c))) = filter (\<lambda>(k, inst). k \<notin> set ks) (durable c)"
  proof (cases "contents (File c)")
    case (Stored m)
    obtain qs r where dp: "describe_pages D m (map fst m) (\<lambda>k. False) = (qs, r)"
      by (cases "describe_pages D m (map fst m) (\<lambda>k. False)")
    show ?thesis
    proof (cases r)
      case (Inl e)
      with Stored dp have "fst (snd (reconcile New D c)) = c"
        by (simp add: reconcile_def Unmarshal_def)
      then have "set [] \<subseteq> fst ` set (durable c) \<and>
         durable (fst (snd (reconcile New D c))) = filter (\<lambda>(k, inst). k \<notin> set []) (durable c)"
        by simp
      then show ?thesis by (rule exI)
    next
      case (Inr live)
      let ?dead = "filter (\<lambda>k. \<not> live k) (map fst m)"
      from Stored dp Inr have r: "fst (snd (reconcile New D c)) = remove_ids New ?dead c"
        by (simp add: reconcile_def Unmarshal_def)
      from remove_ids_durable [of ?dead New c] obtain ks' where
        ks: "set ks' \<subseteq> set ?dead"
            "durable (remove_ids New ?dead c) = filter (\<lambda>(k, inst). k \<notin> set ks') (durable c)"
        by blast
      have "set ?dead \<subseteq> fst ` set (durable c)"
        using Stored by (auto simp: durable_def)
      with ks r have "set ks' \<subseteq> fst ` set (durable c) \<and>
         durable (fst (snd (reconcile New D c))) = filter (\<lambda>(k, inst). k \<notin> set ks') (durable c)"
        by simp
      then show ?thesis by (rule exI)
    qed
  next
    case NoState
    then have "fst (snd (reconcile New D c)) = c"
      by (simp add: reconcile_def Unmarshal_def)
    then have "set [] \<subseteq> fst ` set (durable c) \<and>
       durable (fst (snd (reconcile New D c))) = filter (\<lambda>(k, inst). k \<notin> set []) (durable c)"
      by simp
    then show ?thesis by (rule exI)
  next
    case Unreadable
    then have "fst (snd (reconcile New D c)) = c"
      by (simp add: reconcile_def Unmarshal_def)
    then have "set [] \<subseteq> fst ` set (durable c) \<and>
       durable (fst (snd (reconcile New D c))) = filter (\<lambda>(k, inst). k \<notin> set []) (durable c)"
      by simp
    then show ?thesis by (rule exI)
  qed
next
  show "reconcile New (ignore_unrelated (durable c) D) c = reconcile New D c"
    by (cases "contents (File c)")
       (simp_all add: reconcile_def Unmarshal_def durable_def describe_pages_ignore)
qed

lemma ex_reconcile:
  "reconcile ex_New (\<lambda>q. Inr (ex_response q)) (ex_cluster ex_durable) =
       (None,
        \<lparr>File = \<lparr>contents = Stored [(''i-1'', ex_inst ''i-1'' ''running'')], writable = True\<rparr>,
         pools = [(''i-1'', Some ''https://i-1.ec2:9000/v1/'')],
         Mux = [Some ''https://i-1.ec2:9000/v1/''], MaxInstances = 10, Spot = False\<rparr>,
        [[''i-1'', ''i-2'', ''i-3'']])"
  by (simp add: reconcile_def describe_pages.simps ex_defs ec2MaxFilter_def Unmarshal_def
      Marshal_def remove_ids_def updateState_def terminal_def
      update_def update_discard_def nil_pool_def baseurl_def)

theorem reconcile_only_removes_witness:
  "durable (ex_cluster ex_durable) =
     [(''i-1'', ex_inst ''i-1'' ''running''), (''i-2'', ex_inst ''i-2'' ''running''),
      (''i-3'', ex_inst ''i-3'' ''running'')]
   \<and> durable (fst (snd (reconcile ex_New
         (ignore_unrelated (durable (ex_cluster ex_durable)) (\<lambda>q. Inr (ex_response q)))
         (ex_cluster ex_durable)))) = [(''i-1'', ex_inst ''i-1'' ''running'')]"
  using reconcile_only_removes [of "ex_cluster ex_durable" ex_New "\<lambda>q. Inr (ex_response q)"]
  by (simp add: ex_reconcile) (simp add: durable_def ex_cluster_def ex_durable_def)

section \<open>Properties of the capacity view\<close>

lemma update_construct_keys:
  "fst ` set ps \<subseteq> fst ` set (update_construct New m ps)"
proof (induction m arbitrary: ps)
  case Nil
  then show ?case by simp
next
  case (Cons a m)
  obtain k inst where a: "a = (k, inst)" by (cases a)
  let ?ps' = "if nil_pool ps k then AList.update (InstanceId inst) (fst (New (baseurl inst))) ps else ps"
  have step: "update_construct New (a # m) ps = update_construct New m ?ps'"
    by (simp add: a)
  have "fst ` set ps \<subseteq> fst ` set ?ps'"
    by (auto simp: dom_update)
  also have "\<dots> \<subseteq> fst ` set (update_construct New m ?ps')"
    by (rule Cons)
  finally show ?case unfolding step .
qed

lemma update_construct_distinct:
  "distinct (map fst ps) \<Longrightarrow> distinct (map fst (update_construct New m ps))"
proof (induction m arbitrary: ps)
  case Nil
  then show ?case by simp
next
  case (Cons a m)
  obtain k inst where a: "a = (k, inst)" by (cases a)
  show ?case using Cons by (simp add: a distinct_update)
qed

lemma nil_pool_update_other:
  "k \<noteq> k' \<Longrightarrow> nil_pool (AList.update k' h ps) k = nil_pool ps k"
  by (simp add: nil_pool_def update_conv')

lemma update_construct_map_of:
  assumes "distinct (map fst m)" and "keyed_by_id m"
  shows "map_of (update_construct New m ps) k =
           (case map_of m k of
              None \<Rightarrow> map_of ps k
            | Some inst \<Rightarrow>
                if nil_pool ps k then Some (fst (New (baseurl inst))) else map_of ps k)"
  using assms
proof (induction m arbitrary: ps)
  case Nil
  then show ?case by simp
next
  case (Cons a m)
  obtain k0 i0 where a: "a = (k0, i0)" by (cases a)
  from Cons.prems a have d: "distinct (map fst m)" and kb: "keyed_by_id m"
    and id0: "InstanceId i0 = k0" and fresh: "map_of m k0 = None"
    by (auto simp: keyed_by_id_def map_of_eq_None_iff)
  define ps' where "ps' = (if nil_pool ps k0 then AList.update k0 (fst (New (baseurl i0))) ps else ps)"
  have step: "update_construct New (a # m) ps = update_construct New m ps'"
    by (simp add: a id0 ps'_def)
  have ih: "map_of (update_construct New m ps') k =
           (case map_of m k of
              None \<Rightarrow> map_of ps' k
            | Some inst \<Rightarrow>
                if nil_pool ps' k then Some (fst (New (baseurl inst))) else map_of ps' k)"
    by (rule Cons.IH [OF d kb])
  show ?case
  proof (cases "k = k0")
    case True
    have "map_of (update_construct New m ps') k0 = map_of ps' k0"
      using ih fresh unfolding True by simp
    moreover have "map_of ps' k0 =
        (if nil_pool ps k0 then Some (fst (New (baseurl i0))) else map_of ps k0)"
      by (simp add: ps'_def update_conv')
    ultimately show ?thesis
      unfolding step True by (simp add: a)
  next
    case False
    then have "map_of ps' k = map_of ps k" "nil_pool ps' k = nil_pool ps k"
      by (simp_all add: ps'_def update_conv' nil_pool_update_other)
    then show ?thesis
      unfolding step using ih False by (simp add: a split: option.splits)
  qed
qed

lemma update_discard_map_of:
  "map_of (update_discard m ps) k = (if map_of m k = None then None else map_of ps k)"
  unfolding update_discard_def by (induction ps) auto

lemma update_discard_keys:
  "fst ` set (update_discard m ps) = fst ` set ps \<inter> fst ` set m"
proof -
  have "map_of m k \<noteq> None \<longleftrightarrow> k \<in> fst ` set m" for k
    by (simp add: map_of_eq_None_iff)
  then have "update_discard m ps = filter (\<lambda>(k, p). k \<in> fst ` set m) ps"
    unfolding update_discard_def by simp
  then show ?thesis by force
qed

lemma update_discard_distinct:
  "distinct (map fst ps) \<Longrightarrow> distinct (map fst (update_discard m ps))"
  unfolding update_discard_def by (simp add: distinct_map_filter)

lemma update_construct_covers:
  assumes "keyed_by_id m"
  shows "fst ` set m \<subseteq> fst ` set (update_construct New m ps)"
  using assms
proof (induction m arbitrary: ps)
  case Nil
  then show ?case by simp
next
  case (Cons a m)
  obtain k0 i0 where a: "a = (k0, i0)" by (cases a)
  from Cons.prems a have kb: "keyed_by_id m" and id0: "InstanceId i0 = k0"
    by (auto simp: keyed_by_id_def)
  let ?ps' = "if nil_pool ps k0 then AList.update k0 (fst (New (baseurl i0))) ps else ps"
  have step: "update_construct New (a # m) ps = update_construct New m ?ps'"
    by (simp add: a id0)
  have "k0 \<in> fst ` set ?ps'"
  proof (cases "nil_pool ps k0")
    case True
    then show ?thesis by (simp add: dom_update)
  next
    case False
    then have "map_of ps k0 \<noteq> None"
      by (auto simp: nil_pool_def split: option.splits)
    then show ?thesis using False by (simp add: map_of_eq_None_iff)
  qed
  then have "k0 \<in> fst ` set (update_construct New m ?ps')"
    using update_construct_keys [of ?ps' New m] by blast
  moreover have "fst ` set m \<subseteq> fst ` set (update_construct New m ?ps')"
    by (rule Cons.IH [OF kb])
  ultimately show ?case unfolding step by (simp add: a)
qed

text \<open>
  Claim C4, amended. After an \<open>update\<close> that loads the durable instance set \<open>m\<close>, the pool
  map has no entry for an id that is not in \<open>m\<close>, and its keys stay distinct. When the
  entries of \<open>m\<close> are stored under their own instance ids, the pool map has an entry for
  exactly the ids of \<open>m\<close>, and (the keys of \<open>m\<close> being distinct) the entry of an id is the
  handle it had if that was live, and otherwise what \<open>client.New\<close> returned for the
  instance's address: a live handle, or nil when the construction failed.
\<close>

theorem update_pools:
  assumes "contents (File c) = Stored m"
  shows "fst ` set (pools (update New c)) \<subseteq> fst ` set m
     \<and> Mux (update New c) = map snd (pools (update New c))
     \<and> (distinct (map fst (pools c)) \<longrightarrow> distinct (map fst (pools (update New c))))
     \<and> (keyed_by_id m \<longrightarrow> fst ` set (pools (update New c)) = fst ` set m)
     \<and> (keyed_by_id m \<and> distinct (map fst m) \<longrightarrow>
           (\<forall>k. map_of (pools (update New c)) k =
              (case map_of m k of
                 None \<Rightarrow> None
               | Some inst \<Rightarrow>
                   if nil_pool (pools c) k then Some (fst (New (baseurl inst)))
                   else map_of (pools c) k)))"
proof -
  have p: "pools (update New c) = update_discard m (update_construct New m (pools c))"
    and mx: "Mux (update New c) = map snd (pools (update New c))"
    using assms by (simp_all add: update_def Unmarshal_def Let_def)
  have 1: "fst ` set (pools (update New c)) \<subseteq> fst ` set m"
    by (simp add: p update_discard_keys)
  have 3: "distinct (map fst (pools c)) \<longrightarrow> distinct (map fst (pools (update New c)))"
    by (simp add: p update_discard_distinct update_construct_distinct)
  have 4: "keyed_by_id m \<longrightarrow> fst ` set (pools (update New c)) = fst ` set m"
    using update_construct_covers [of m New "pools c"]
    by (auto simp: p update_discard_keys)
  have 5: "keyed_by_id m \<and> distinct (map fst m) \<longrightarrow>
           (\<forall>k. map_of (pools (update New c)) k =
              (case map_of m k of
                 None \<Rightarrow> None
               | Some inst \<Rightarrow>
                   if nil_pool (pools c) k then Some (fst (New (baseurl inst)))
                   else map_of (pools c) k))"
    by (auto simp: p update_discard_map_of update_construct_map_of split: option.splits)
  from 1 mx 3 4 5 show ?thesis by simp
qed

text \<open>
  Claim C4 as stated (one live handle per durable entry after every rebuild) fails when
  \<open>client.New\<close> fails: the durable entry \<open>i-1\<close> is left with a nil handle.
\<close>

theorem update_nil_handle:
  "durable (ex_cluster [(''i-1'', ex_inst ''i-1'' ''running'')]) = [(''i-1'', ex_inst ''i-1'' ''running'')]
   \<and> pools (update ex_New_fail (ex_cluster [(''i-1'', ex_inst ''i-1'' ''running'')]))
       = [(''i-1'', None)]"
  by (simp add: durable_def ex_defs ex_New_fail_def update_def Unmarshal_def update_discard_def
      nil_pool_def baseurl_def)

theorem update_pools_witness:
  "contents (File ((ex_cluster ex_durable)\<lparr>pools := [(''i-7'', Some ''h7''), (''i-1'', Some ''h1'')]\<rparr>))
     = Stored ex_durable
   \<and> keyed_by_id ex_durable \<and> distinct (map fst ex_durable)
   \<and> distinct (map fst [(''i-7'', Some ''h7''), (''i-1'', Some ''h1'')])
   \<and> fst ` set (pools (update ex_New
         ((ex_cluster ex_durable)\<lparr>pools := [(''i-7'', Some ''h7''), (''i-1'', Some ''h1'')]\<rparr>)))
       = {''i-1'', ''i-2'', ''i-3''}
   \<and> distinct (map fst (pools (update ex_New
         ((ex_cluster ex_durable)\<lparr>pools := [(''i-7'', Some ''h7''), (''i-1'', Some ''h1'')]\<rparr>))))
   \<and> map_of (pools (update ex_New
         ((ex_cluster ex_durable)\<lparr>pools := [(''i-7'', Some ''h7''), (''i-1'', Some ''h1'')]\<rparr>))) ''i-1''
       = Some (Some ''h1'')
   \<and> map_of (pools (update ex_New
         ((ex_cluster ex_durable)\<lparr>pools := [(''i-7'', Some ''h7''), (''i-1'', Some ''h1'')]\<rparr>))) ''i-2''
       = Some (Some ''https://i-2.ec2:9000/v1/'')
   \<and> map_of (pools (update ex_New
         ((ex_cluster ex_durable)\<lparr>pools := [(''i-7'', Some ''h7''), (''i-1'', Some ''h1'')]\<rparr>))) ''i-7''
       = None"
proof -
  let ?c = "(ex_cluster ex_durable)\<lparr>pools := [(''i-7'', Some ''h7''), (''i-1'', Some ''h1'')]\<rparr>"
  have h: "contents (File ?c) = Stored ex_durable"
    by (simp add: ex_cluster_def)
  have k: "keyed_by_id ex_durable" "distinct (map fst ex_durable)"
    by (simp_all add: keyed_by_id_def ex_durable_def ex_inst_def)
  have p: "pools ?c = [(''i-7'', Some ''h7''), (''i-1'', Some ''h1'')]"
    by simp
  have m: "map_of ex_durable ''i-1'' = Some (ex_inst ''i-1'' ''running'')"
      "map_of ex_durable ''i-2'' = Some (ex_inst ''i-2'' ''running'')"
      "map_of ex_durable ''i-7'' = None"
      "fst ` set ex_durable = {''i-1'', ''i-2'', ''i-3''}"
    by (auto simp: ex_durable_def)
  have h': "contents (File (ex_cluster ex_durable)) = Stored ex_durable"
    by (simp add: ex_cluster_def)
  from update_pools [OF h, of ex_New] k
  show ?thesis
    unfolding p
    by (simp add: h' k m nil_pool_def ex_New_def baseurl_def ex_inst_def)
qed

section \<open>Properties of the grower loop\<close>

text \<open>
  What the packing does in general when the second waiter breaks the bucket the first one
  opened: the loop plans the configuration that the failed \<open>MinAvailable\<close> returned and
  goes on after the second waiter; the packing as the specification words it plans the
  shape found for the first waiter and goes on with the second.
\<close>

lemma pack_after_break:
  assumes "snd (ma (res_Add ops (res_zero ops) (req_Min w1)) spot)"
      and "\<not> snd (ma (res_Add ops (res_Add ops (res_zero ops) (req_Min w1)) (req_Min w2)) spot)"
  shows "pack ops ma spot (w1 # w2 # ws) =
           fst (ma (res_Add ops (res_Add ops (res_zero ops) (req_Min w1)) (req_Min w2)) spot)
             # pack ops ma spot ws"
proof -
  obtain b1 where 1: "ma (res_Add ops (res_zero ops) (req_Min w1)) spot = (b1, True)"
    using assms(1) by (cases "ma (res_Add ops (res_zero ops) (req_Min w1)) spot") auto
  obtain b2 where 2: "ma (res_Add ops (res_Add ops (res_zero ops) (req_Min w1)) (req_Min w2)) spot = (b2, False)"
    using assms(2)
    by (cases "ma (res_Add ops (res_Add ops (res_zero ops) (req_Min w1)) (req_Min w2)) spot") auto
  have "pack_extend ops ma spot (res_Add ops (res_zero ops) (req_Min w1)) b1 (w2 # ws) = (b2, ws)"
    by (simp add: 2)
  then show ?thesis
    by (simp add: 1 2 del: pack_extend.simps)
qed

lemma pack_claim_after_break:
  assumes "snd (ma (res_Add ops (res_zero ops) (req_Min w1)) spot)"
      and "\<not> snd (ma (res_Add ops (res_Add ops (res_zero ops) (req_Min w1)) (req_Min w2)) spot)"
  shows "pack_claim ops ma spot (w1 # w2 # ws) =
           fst (ma (res_Add ops (res_zero ops) (req_Min w1)) spot)
             # pack_claim ops ma spot (w2 # ws)"
proof -
  obtain b1 where 1: "ma (res_Add ops (res_zero ops) (req_Min w1)) spot = (b1, True)"
    using assms(1) by (cases "ma (res_Add ops (res_zero ops) (req_Min w1)) spot") auto
  obtain b2 where 2: "ma (res_Add ops (res_Add ops (res_zero ops) (req_Min w1)) (req_Min w2)) spot = (b2, False)"
    using assms(2)
    by (cases "ma (res_Add ops (res_Add ops (res_zero ops) (req_Min w1)) (req_Min w2)) spot") auto
  have e: "pack_extend_claim ops ma spot (res_Add ops (res_zero ops) (req_Min w1)) b1 (w2 # ws) = (b1, w2 # ws)"
    by (simp add: 2)
  have "pack_claim ops ma spot (w1 # w2 # ws) = b1 # pack_claim ops ma spot (w2 # ws)"
    by (subst pack_claim.simps) (simp add: 1 e del: pack_extend_claim.simps pack_claim.simps)
  then show ?thesis by (simp add: 1 del: pack_claim.simps)
qed

text \<open>
  Claim C1. The planned launches are a greedy prefix packing of the sorted waiters: when
  adding the next waiter makes the accumulated requirement unsatisfiable, the bucket is
  closed with the minimal shape adequate for the prefix before that waiter and a new
  accumulation starts at that waiter. The loop does not do that. With two waiters of one
  cpu each and \<open>small\<close> (one cpu) the only shape, the second waiter breaks the first
  bucket; the loop then plans a single launch, of the configuration that the failed
  \<open>MinAvailable\<close> returned, and the second waiter starts no bucket, where the packing as
  claimed plans \<open>small\<close> twice.
\<close>

theorem pack_breaking_waiter:
  "pack int_ops ex_MinAvailable False [ex_waiter 1 1 1, ex_waiter 1 1 2] = [ex_none]
   \<and> pack_claim int_ops ex_MinAvailable False [ex_waiter 1 1 1, ex_waiter 1 1 2]
       = [ex_small, ex_small]"
  by (simp add: int_ops_def ex_MinAvailable_def ex_waiter_def ex_small_def ex_none_def)

lemma launch_room_step:
  "np < maxPending \<and> n + np < mx \<Longrightarrow> launch_room n mx np = Suc (launch_room n mx (np + 1))"
  by (auto simp: launch_room_def maxPending_def)

lemma launch_room_zero:
  "\<not> (np < maxPending \<and> n + np < mx) \<Longrightarrow> launch_room n mx np = 0"
  by (auto simp: launch_room_def maxPending_def)

lemma launch_loop_eq:
  "launch_loop ops n mx todo pend np =
     (total ops pend (take (launch_room n mx np) todo),
      np + int (length (take (launch_room n mx np) todo)),
      take (launch_room n mx np) todo)"
proof (induction todo arbitrary: pend np)
  case Nil
  then show ?case by (simp add: total_def)
next
  case (Cons config todo)
  show ?case
  proof (cases "np < maxPending \<and> n + np < mx")
    case True
    then show ?thesis
      by (simp add: Cons launch_room_step total_def)
  next
    case False
    then show ?thesis
      by (simp add: launch_room_zero total_def del: launch_loop.simps)
         (simp add: False)
  qed
qed

lemma plan_fields:
  "inflight (fst (plan ops env s)) =
      inflight s @ take (launch_room (int (length (durable (clus s)))) (MaxInstances (clus s)) (npending s))
                        (planned ops env s)"
  "npending (fst (plan ops env s)) =
      npending s + int (length (take (launch_room (int (length (durable (clus s)))) (MaxInstances (clus s)) (npending s))
                        (planned ops env s)))"
  "pending (fst (plan ops env s)) =
      total ops (pending s) (take (launch_room (int (length (durable (clus s)))) (MaxInstances (clus s)) (npending s))
                        (planned ops env s))"
  "clus (fst (plan ops env s)) = clus s"
  "waiters (fst (plan ops env s)) = sort_key (\<lambda>w. ScaledDistance ops (req_Min w)) (waiters s)"
  "notified (fst (plan ops env s)) = notified s"
proof -
  have d: "(case Unmarshal (File (clus s)) of Inl err \<Rightarrow> [] | Inr m \<Rightarrow> m) = durable (clus s)"
    by (simp add: Unmarshal_def durable_def split: file_contents.splits)
  show "inflight (fst (plan ops env s)) =
      inflight s @ take (launch_room (int (length (durable (clus s)))) (MaxInstances (clus s)) (npending s))
                        (planned ops env s)"
    and "npending (fst (plan ops env s)) =
      npending s + int (length (take (launch_room (int (length (durable (clus s)))) (MaxInstances (clus s)) (npending s))
                        (planned ops env s)))"
    and "pending (fst (plan ops env s)) =
      total ops (pending s) (take (launch_room (int (length (durable (clus s)))) (MaxInstances (clus s)) (npending s))
                        (planned ops env s))"
    and "clus (fst (plan ops env s)) = clus s"
    and "waiters (fst (plan ops env s)) = sort_key (\<lambda>w. ScaledDistance ops (req_Min w)) (waiters s)"
    and "notified (fst (plan ops env s)) = notified s"
    unfolding plan_def d planned_def [symmetric] launch_loop_eq Let_def
    by (simp_all add: total_def)
qed

lemma done_case_fields:
  "npending (done_case ops New env s inst) = npending s - 1"
  "inflight (done_case ops New env s inst) = remove1 (Config inst) (inflight s)"
  "pending (done_case ops New env s inst) = res_Sub ops (pending s) (Resources (Config inst))"
  by (simp_all add: done_case_def Let_def split: option.splits prod.splits)

lemma wait_case_fields:
  "npending (wait_case env s w) = npending s"
  "inflight (wait_case env s w) = inflight s"
  "pending (wait_case env s w) = pending s"
  by (simp_all add: wait_case_def)

lemma launch_room_bound: "np \<le> maxPending \<Longrightarrow> np + int (launch_room n mx np) \<le> maxPending"
  by (auto simp: launch_room_def)

lemma reachable_npending:
  "reachable ops New s \<Longrightarrow> npending s = int (length (inflight s)) \<and> npending s \<le> maxPending"
proof (induction rule: reachable.induct)
  case (start cl)
  show ?case by (simp add: init_state_def maxPending_def)
next
  case (outside s f ps mx)
  then show ?case by simp
next
  case (iterate s env ev)
  let ?s1 = "fst (plan ops env s)"
  let ?room = "launch_room (int (length (durable (clus s)))) (MaxInstances (clus s)) (npending s)"
  have a: "npending ?s1 = int (length (inflight ?s1))"
    using iterate.IH by (simp add: plan_fields)
  have "npending ?s1 \<le> npending s + int ?room"
    by (simp add: plan_fields)
  also have "\<dots> \<le> maxPending"
    using iterate.IH by (simp add: launch_room_bound)
  finally have b: "npending ?s1 \<le> maxPending" .
  show ?case
  proof (cases ev)
    case Poll
    then show ?thesis using a b by (simp add: iteration_def)
  next
    case (Wait w)
    then show ?thesis using a b by (simp add: iteration_def wait_case_fields)
  next
    case (Done inst)
    with iterate.hyps(2) have m: "Config inst \<in> set (inflight ?s1)" by simp
    then have "1 \<le> length (inflight ?s1)" by (cases "inflight ?s1") auto
    then have l: "int (length (inflight ?s1) - 1) = int (length (inflight ?s1)) - 1"
      by (simp add: of_nat_diff)
    have "length (remove1 (Config inst) (inflight ?s1)) = length (inflight ?s1) - 1"
      using m by (simp add: length_remove1)
    with l a b Done show ?thesis
      by (simp add: iteration_def done_case_fields)
  qed
qed

lemma total_append: "total ops a (xs @ ys) = total ops (total ops a xs) ys"
  by (simp add: total_def)

lemma foldl_Sub:
  assumes "exact_arithmetic ops"
  shows "res_Sub ops (foldl (res_Add ops) b ys) x = foldl (res_Add ops) (res_Sub ops b x) ys"
proof (induction ys arbitrary: b)
  case Nil
  then show ?case by simp
next
  case (Cons y ys)
  have "res_Sub ops (res_Add ops b y) x = res_Add ops (res_Sub ops b x) y"
    using assms unfolding exact_arithmetic_def by blast
  then show ?case by (simp add: Cons)
qed

lemma total_remove1:
  assumes "exact_arithmetic ops" and "config \<in> set configs"
  shows "total ops a (remove1 config configs) = res_Sub ops (total ops a configs) (Resources config)"
  using assms(2)
proof (induction configs arbitrary: a)
  case Nil
  then show ?case by simp
next
  case (Cons x xs)
  show ?case
  proof (cases "x = config")
    case True
    have "res_Sub ops (res_Add ops a (Resources config)) (Resources config) = a"
      using assms(1) unfolding exact_arithmetic_def by blast
    then show ?thesis
      using True by (simp add: total_def foldl_Sub [OF assms(1)])
  next
    case False
    with Cons.prems have "config \<in> set xs" by simp
    from Cons.IH [OF this, of "res_Add ops a (Resources x)"] False
    show ?thesis by (simp add: total_def)
  qed
qed

lemma reachable_pending:
  assumes "exact_arithmetic ops"
  shows "reachable ops New s \<Longrightarrow> pending s = total ops (res_zero ops) (inflight s)"
proof (induction rule: reachable.induct)
  case (start cl)
  show ?case by (simp add: init_state_def total_def)
next
  case (outside s f ps mx)
  then show ?case by simp
next
  case (iterate s env ev)
  let ?s1 = "fst (plan ops env s)"
  have a: "pending ?s1 = total ops (res_zero ops) (inflight ?s1)"
    using iterate.IH by (simp add: plan_fields total_append)
  show ?case
  proof (cases ev)
    case Poll
    then show ?thesis using a by (simp add: iteration_def)
  next
    case (Wait w)
    then show ?thesis using a by (simp add: iteration_def wait_case_fields)
  next
    case (Done inst)
    with iterate.hyps(2) have m: "Config inst \<in> set (inflight ?s1)" by simp
    show ?thesis
      using Done a total_remove1 [OF assms m, of "res_zero ops"]
      by (simp add: iteration_def done_case_fields)
  qed
qed

lemma add_one:
  "add New [i] cl =
     update New (cl\<lparr>File := snd (Marshal (File cl) (AList.update (InstanceId i) i (durable cl)))\<rparr>)"
  by (simp add: add_def updateState_def durable_def Unmarshal_def split: prod.splits file_contents.splits)

lemma update_MaxInstances: "MaxInstances (update New c) = MaxInstances c"
  by (simp add: update_def Let_def split: sum.splits)

lemma length_AList_update: "length (AList.update k v al) \<le> Suc (length al)"
  by (induction al) auto

lemma add_one_count:
  "MaxInstances (add New [i] cl) = MaxInstances cl"
  "length (durable (add New [i] cl)) \<le> Suc (length (durable cl))"
proof -
  show "MaxInstances (add New [i] cl) = MaxInstances cl"
    by (simp add: add_one update_MaxInstances)
  show "length (durable (add New [i] cl)) \<le> Suc (length (durable cl))"
  proof (cases "writable (File cl)")
    case True
    then have "durable (add New [i] cl) = AList.update (InstanceId i) i (durable cl)"
      by (simp add: add_one durable_update) (simp add: durable_def Marshal_def)
    then show ?thesis by (simp add: length_AList_update)
  next
    case False
    then have "durable (add New [i] cl) = durable cl"
      by (simp add: add_one durable_update) (simp add: durable_def Marshal_def)
    then show ?thesis by simp
  qed
qed

lemma done_case_clus:
  "clus (done_case ops New env s inst) =
     (case Err inst of None \<Rightarrow> add New [Instance inst] (clus s) | Some err \<Rightarrow> clus s)"
  by (simp add: done_case_def Let_def split: option.splits prod.splits)

lemma plan_total:
  assumes "int (length (durable (clus s))) + npending s \<le> MaxInstances (clus s)"
  shows "int (length (durable (clus s))) + npending (fst (plan ops env s)) \<le> MaxInstances (clus s)"
proof -
  let ?n = "int (length (durable (clus s)))"
  let ?room = "launch_room ?n (MaxInstances (clus s)) (npending s)"
  have "npending (fst (plan ops env s)) \<le> npending s + int ?room"
    by (simp add: plan_fields)
  moreover have "?n + (npending s + int ?room) \<le> MaxInstances (clus s)"
    using assms by (auto simp: launch_room_def)
  ultimately show ?thesis by simp
qed

lemma reachable_alone_total:
  "reachable_alone ops New s \<Longrightarrow>
     int (length (durable (clus s))) + npending s \<le> MaxInstances (clus s)"
proof (induction rule: reachable_alone.induct)
  case (start_within cl)
  then show ?case by (simp add: init_state_def)
next
  case (shrunk s f ps mx)
  then show ?case by simp
next
  case (iterate_alone s env ev)
  let ?s1 = "fst (plan ops env s)"
  have a: "int (length (durable (clus ?s1))) + npending ?s1 \<le> MaxInstances (clus ?s1)"
    using plan_total [OF iterate_alone.IH, of ops env] by (simp add: plan_fields)
  show ?case
  proof (cases ev)
    case Poll
    then show ?thesis using a by (simp add: iteration_def)
  next
    case (Wait w)
    then show ?thesis using a by (simp add: iteration_def wait_case_def)
  next
    case (Done inst)
    show ?thesis
    proof (cases "Err inst")
      case None
      have "int (length (durable (add New [Instance inst] (clus ?s1)))) \<le> int (length (durable (clus ?s1))) + 1"
        using add_one_count(2) [of New "Instance inst" "clus ?s1"] by simp
      then show ?thesis
        using a Done None
        by (simp add: iteration_def done_case_clus done_case_fields add_one_count(1))
    next
      case (Some err)
      then show ?thesis
        using a Done by (simp add: iteration_def done_case_clus done_case_fields)
    qed
  qed
qed

text \<open>
  Claim C5, amended. In every state the loop reaches, \<open>npending\<close> is the number of launches
  in flight and is at most 5, at the start of an iteration and after its launches. The
  launches an iteration starts are the first planned ones, as many as both caps leave room
  for, so the planned launches beyond a cap are not started; each of them is started
  while \<open>npending < maxPending\<close> and, with \<open>n\<close> the durable instance count the iteration
  read, \<open>n + npending < MaxInstances\<close>; hence after an iteration that started a launch,
  \<open>n + npending \<le> MaxInstances\<close>. When the loop alone adds to the durable set, which
  starts within the ceiling, the durable count plus the launches in flight never exceeds
  \<open>MaxInstances\<close>, at the start of an iteration or after its launches.
\<close>

theorem launch_caps:
  assumes "reachable ops New s"
  shows "npending s = int (length (inflight s)) \<and> length (inflight s) \<le> 5
     \<and> inflight (fst (plan ops env s)) =
         inflight s @ take (launch_room (int (length (durable (clus s)))) (MaxInstances (clus s)) (npending s))
                           (planned ops env s)
     \<and> npending (fst (plan ops env s)) = int (length (inflight (fst (plan ops env s))))
     \<and> length (inflight (fst (plan ops env s))) \<le> 5
     \<and> (\<forall>i < length (take (launch_room (int (length (durable (clus s)))) (MaxInstances (clus s)) (npending s))
                          (planned ops env s)).
           npending s + int i < maxPending
           \<and> int (length (durable (clus s))) + (npending s + int i) < MaxInstances (clus s))
     \<and> (take (launch_room (int (length (durable (clus s)))) (MaxInstances (clus s)) (npending s))
              (planned ops env s) \<noteq> [] \<longrightarrow>
          int (length (durable (clus s))) + npending (fst (plan ops env s)) \<le> MaxInstances (clus s))
     \<and> (reachable_alone ops New s \<longrightarrow>
          int (length (durable (clus s))) + npending s \<le> MaxInstances (clus s)
          \<and> int (length (durable (clus s))) + npending (fst (plan ops env s)) \<le> MaxInstances (clus s))"
proof -
  let ?n = "int (length (durable (clus s)))"
  let ?room = "launch_room ?n (MaxInstances (clus s)) (npending s)"
  let ?started = "take ?room (planned ops env s)"
  from reachable_npending [OF assms]
  have inv: "npending s = int (length (inflight s))" "npending s \<le> maxPending" by simp_all
  have 1: "length (inflight s) \<le> 5"
    using inv by (simp add: maxPending_def)
  have 2: "inflight (fst (plan ops env s)) = inflight s @ ?started"
    by (rule plan_fields)
  have 3: "npending (fst (plan ops env s)) = int (length (inflight (fst (plan ops env s))))"
    using inv by (simp add: plan_fields)
  have "npending (fst (plan ops env s)) \<le> npending s + int ?room"
    by (simp add: plan_fields)
  also have "\<dots> \<le> maxPending"
    using inv by (simp add: launch_room_bound)
  finally have 4: "length (inflight (fst (plan ops env s))) \<le> 5"
    using 3 by (simp add: maxPending_def)
  have 5: "\<forall>i < length ?started. npending s + int i < maxPending
           \<and> ?n + (npending s + int i) < MaxInstances (clus s)"
    by (auto simp: launch_room_def)
  have 6: "?started \<noteq> [] \<longrightarrow> ?n + npending (fst (plan ops env s)) \<le> MaxInstances (clus s)"
    by (auto simp: plan_fields launch_room_def)
  have 7: "reachable_alone ops New s \<longrightarrow>
          ?n + npending s \<le> MaxInstances (clus s)
          \<and> ?n + npending (fst (plan ops env s)) \<le> MaxInstances (clus s)"
    using reachable_alone_total [of ops New s] plan_total [of s ops env] by blast
  from inv(1) 1 2 3 4 5 6 7 show ?thesis by (intro conjI)
qed

text \<open>
  Claim C9, amended. At the start of every iteration \<open>npending\<close> is the number of launches
  started and not yet received on \<open>done\<close>, and, when the resource arithmetic is exact,
  \<open>pending\<close> is the sum of the resources of their configurations. Every launch an
  iteration starts adds its configuration's resources and one to \<open>npending\<close>; every
  completion, whatever its error, subtracts those resources and one.
\<close>

theorem pending_accounting:
  assumes "reachable ops New s"
  shows "npending s = int (length (inflight s))
     \<and> (exact_arithmetic ops \<longrightarrow> pending s = total ops (res_zero ops) (inflight s))
     \<and> npending (fst (plan ops env s)) =
         npending s + int (length (inflight (fst (plan ops env s)))) - int (length (inflight s))
     \<and> pending (fst (plan ops env s)) =
         total ops (pending s) (drop (length (inflight s)) (inflight (fst (plan ops env s))))
     \<and> npending (done_case ops New env s' inst) = npending s' - 1
     \<and> pending (done_case ops New env s' inst) = res_Sub ops (pending s') (Resources (Config inst))
     \<and> inflight (done_case ops New env s' inst) = remove1 (Config inst) (inflight s')"
proof -
  have 1: "npending s = int (length (inflight s))"
    using reachable_npending [OF assms] by simp
  have 2: "exact_arithmetic ops \<longrightarrow> pending s = total ops (res_zero ops) (inflight s)"
    using reachable_pending [OF _ assms] by blast
  have 3: "npending (fst (plan ops env s)) =
         npending s + int (length (inflight (fst (plan ops env s)))) - int (length (inflight s))"
    by (simp add: plan_fields)
  have 4: "pending (fst (plan ops env s)) =
         total ops (pending s) (drop (length (inflight s)) (inflight (fst (plan ops env s))))"
    by (simp add: plan_fields)
  from 1 2 3 4 show ?thesis by (simp add: done_case_fields)
qed

lemmas loop_ex_defs = int_ops_def ex_MinAvailable_def ex_waiter_def ex_small_def ex_none_def
  ex_env_def ex_New_def ex_cluster_def ex_inst_def

lemma ex_state1_eq:
  "ex_state1 = \<lparr>waiters = [ex_waiter 1 1 1], pending = 0, npending = 0, clus = ex_cluster [],
      inflight = [], notified = [], demoted = []\<rparr>"
  by (simp add: ex_state1_def iteration_def plan_def init_state_def wait_case_def Unmarshal_def
      loop_ex_defs)

lemma ex_plan1:
  "fst (plan int_ops ex_env ex_state1) =
     \<lparr>waiters = [ex_waiter 1 1 1], pending = 1, npending = 1, clus = ex_cluster [],
      inflight = [ex_small], notified = [], demoted = []\<rparr>"
  by (simp add: ex_state1_eq plan_def Unmarshal_def maxPending_def loop_ex_defs)

lemma ex_state2_eq:
  "ex_state2 = \<lparr>waiters = [ex_waiter 1 1 1, ex_waiter 1 1 2], pending = 1, npending = 1,
      clus = ex_cluster [], inflight = [ex_small], notified = [], demoted = []\<rparr>"
  unfolding ex_state2_def iteration_def ex_plan1
  by (simp add: wait_case_def loop_ex_defs)

lemma ex_reachable1: "reachable int_ops ex_New ex_state1"
  unfolding ex_state1_def by (rule reachable.iterate [OF reachable.start]) simp

lemma ex_reachable2: "reachable int_ops ex_New ex_state2"
  unfolding ex_state2_def by (rule reachable.iterate [OF ex_reachable1]) simp

theorem launch_caps_witness:
  "reachable int_ops ex_New ex_state1 \<and> reachable_alone int_ops ex_New ex_state1
   \<and> npending ex_state1 = 0 \<and> inflight ex_state1 = []
   \<and> int (length (durable (clus ex_state1))) = 0 \<and> MaxInstances (clus ex_state1) = 10
   \<and> planned int_ops ex_env ex_state1 = [ex_small]
   \<and> inflight (fst (plan int_ops ex_env ex_state1)) = [ex_small]
   \<and> npending (fst (plan int_ops ex_env ex_state1)) = 1
   \<and> int (length (durable (clus ex_state1))) + npending (fst (plan int_ops ex_env ex_state1)) \<le> 10"
proof -
  have p: "planned int_ops ex_env ex_state1 = [ex_small]"
    by (simp add: planned_def ex_state1_eq loop_ex_defs)
  have n: "durable (clus ex_state1) = []" "MaxInstances (clus ex_state1) = 10"
    by (simp_all add: ex_state1_eq durable_def ex_cluster_def)
  have i: "npending ex_state1 = 0" "inflight ex_state1 = []"
    by (simp_all add: ex_state1_eq)
  have al: "reachable_alone int_ops ex_New ex_state1"
    unfolding ex_state1_def
    by (rule reachable_alone.iterate_alone [OF reachable_alone.start_within])
       (simp_all add: durable_def ex_cluster_def)
  from launch_caps [OF ex_reachable1, of ex_env]
  show ?thesis
    unfolding p n i
    by (simp add: ex_reachable1 al launch_room_def maxPending_def)
qed

lemma ex_shared_eq:
  "ex_shared = \<lparr>waiters = [ex_waiter 1 1 5, ex_waiter 1 1 6], pending = 1, npending = 1,
      clus = (ex_ceiling_one [(''i-9'', ex_inst ''i-9'' ''running'')]),
      inflight = [ex_small], notified = [], demoted = []\<rparr>"
  by (simp add: ex_shared_def iteration_def plan_def init_state_def wait_case_def Unmarshal_def
      maxPending_def ex_ceiling_one_def loop_ex_defs)

text \<open>
  Claim C5 as stated fails: the total of live and pending instances can exceed the
  ceiling. With a ceiling of one, the loop may start on a durable set of three instances;
  and after it has started one launch, another process sharing the state file may add an
  instance, so that one live and one pending instance stand against the ceiling of one.
\<close>

theorem total_exceeds_ceiling:
  "reachable int_ops ex_New ex_full
   \<and> MaxInstances (clus ex_full) = 1
   \<and> int (length (durable (clus ex_full))) + npending ex_full = 3
   \<and> reachable int_ops ex_New ex_shared
   \<and> MaxInstances (clus ex_shared) = 1
   \<and> npending ex_shared = 1
   \<and> int (length (durable (clus ex_shared))) + npending ex_shared = 2"
proof -
  have 1: "reachable int_ops ex_New ex_full"
    unfolding ex_full_def by (rule reachable.start)
  have 2: "MaxInstances (clus ex_full) = 1"
    "int (length (durable (clus ex_full))) + npending ex_full = 3"
    by (simp_all add: ex_full_def init_state_def ex_ceiling_one_def ex_cluster_def durable_def
        ex_durable_def)
  have 3: "reachable int_ops ex_New ex_shared"
    unfolding ex_shared_def Let_def
    by (rule reachable.outside, rule reachable.iterate, rule reachable.iterate,
        rule reachable.start) simp_all
  have 4: "MaxInstances (clus ex_shared) = 1" "npending ex_shared = 1"
    "int (length (durable (clus ex_shared))) + npending ex_shared = 2"
    by (simp_all add: ex_shared_eq ex_ceiling_one_def ex_cluster_def durable_def)
  from 1 2 3 4 show ?thesis by (intro conjI)
qed

theorem pending_accounting_witness:
  "reachable int_ops ex_New ex_state2 \<and> exact_arithmetic int_ops
   \<and> inflight ex_state2 = [ex_small] \<and> npending ex_state2 = 1 \<and> pending ex_state2 = 1"
proof -
  have e: "exact_arithmetic int_ops"
    by (simp add: exact_arithmetic_def int_ops_def)
  have i: "inflight ex_state2 = [ex_small]"
    by (simp add: ex_state2_eq)
  have t: "total int_ops (res_zero int_ops) [ex_small] = 1"
    by (simp add: total_def int_ops_def ex_small_def)
  from pending_accounting [OF ex_reachable2, of ex_env ex_state2
      "\<lparr>Config = ex_small, Err = None, Instance = ex_inst ''i-1'' ''running''\<rparr>"]
  show ?thesis
    unfolding i t
    by (simp add: e ex_reachable2)
qed

lemmas drift_defs = coarse_ops_def coarse_def ex_MinAvailable2_def ex_waiter_def ex_seven_def
  ex_two_def ex_none_def ex_env2_def ex_env2_cancel_def ex_New_def ex_cluster_def ex_inst_def
  ex_failed_def

lemma ex_drift1_eq:
  "ex_drift1 = \<lparr>waiters = [ex_waiter 7 7 5], pending = 0, npending = 0, clus = ex_cluster [],
      inflight = [], notified = [], demoted = []\<rparr>"
  by (simp add: ex_drift1_def iteration_def plan_def init_state_def wait_case_def Unmarshal_def
      drift_defs)

lemma ex_drift1_plan:
  "fst (plan coarse_ops ex_env2_cancel ex_drift1) =
     \<lparr>waiters = [ex_waiter 7 7 5], pending = 7, npending = 1, clus = ex_cluster [],
      inflight = [ex_seven], notified = [], demoted = []\<rparr>"
  by (simp add: ex_drift1_eq plan_def Unmarshal_def maxPending_def drift_defs)

lemma ex_drift2_eq:
  "ex_drift2 = \<lparr>waiters = [ex_waiter 2 2 6], pending = 7, npending = 1, clus = ex_cluster [],
      inflight = [ex_seven], notified = [], demoted = []\<rparr>"
  unfolding ex_drift2_def iteration_def ex_drift1_plan
  by (simp add: wait_case_def drift_defs)

lemma ex_drift2_plan:
  "fst (plan coarse_ops ex_env2 ex_drift2) =
     \<lparr>waiters = [ex_waiter 2 2 6], pending = 8, npending = 2, clus = ex_cluster [],
      inflight = [ex_seven, ex_two], notified = [], demoted = []\<rparr>"
  by (simp add: ex_drift2_eq plan_def Unmarshal_def maxPending_def drift_defs)

lemma ex_drift3_eq:
  "ex_drift3 = \<lparr>waiters = [ex_waiter 2 2 6], pending = 1, npending = 1, clus = ex_cluster [],
      inflight = [ex_two], notified = [], demoted = []\<rparr>"
  unfolding ex_drift3_def iteration_def ex_drift2_plan
  by (simp add: done_case_def drift_defs)

lemma ex_drift_reachable: "reachable coarse_ops ex_New ex_drift3"
proof -
  have 1: "reachable coarse_ops ex_New ex_drift1"
    unfolding ex_drift1_def by (rule reachable.iterate [OF reachable.start]) simp
  have 2: "reachable coarse_ops ex_New ex_drift2"
    unfolding ex_drift2_def by (rule reachable.iterate [OF 1]) simp
  have "enabled coarse_ops ex_env2 ex_drift2 (Done ex_failed)"
    by (simp add: ex_drift2_plan) (simp add: ex_failed_def)
  then show ?thesis
    unfolding ex_drift3_def by (rule reachable.iterate [OF 2])
qed

text \<open>
  Claim C9 as stated fails for an arithmetic that rounds: after launches of 7 and 2 the
  pending total is 8, not 9, and once the launch of 7 has completed it is 1, while the
  launch still in flight has resources 2.
\<close>

theorem pending_drifts:
  "reachable coarse_ops ex_New ex_drift3
   \<and> inflight ex_drift3 = [ex_two] \<and> npending ex_drift3 = 1
   \<and> pending ex_drift3 = 1
   \<and> total coarse_ops (res_zero coarse_ops) (inflight ex_drift3) = 2"
  using ex_drift_reachable
  by (simp add: ex_drift3_eq) (simp add: total_def coarse_ops_def coarse_def ex_two_def)

lemma scan_append:
  "scan ops cerr a (xs @ ys) =
     (case scan ops cerr a xs of (k1, n1, a1) \<Rightarrow>
        case scan ops cerr a1 ys of (k2, n2, a2) \<Rightarrow> (k1 @ k2, n1 @ n2, a2))"
  by (induction xs arbitrary: a) (auto simp: Let_def split: prod.splits)

lemma scan_snoc:
  "scan ops cerr a (xs @ [w]) =
     (case scan ops cerr a xs of (k1, n1, a1) \<Rightarrow>
        (if kept ops cerr a1 w then k1 @ [w] else k1,
         if satisfied ops cerr a1 w then n1 @ [w] else n1,
         consume ops cerr a1 w))"
  by (auto simp: scan_append kept_def satisfied_def consume_def Let_def split: prod.splits)

lemma remaining_Nil: "remaining ops cerr a [] = a"
  by (simp add: remaining_def)

lemma remaining_snoc:
  "remaining ops cerr a (xs @ [w]) = consume ops cerr (remaining ops cerr a xs) w"
  by (simp add: remaining_def scan_snoc split: prod.splits)

lemma scan_index:
  "scan ops cerr a ws =
     (map (nth ws) (filter (\<lambda>i. kept ops cerr (remaining ops cerr a (take i ws)) (ws ! i)) [0..<length ws]),
      map (nth ws) (filter (\<lambda>i. satisfied ops cerr (remaining ops cerr a (take i ws)) (ws ! i)) [0..<length ws]),
      remaining ops cerr a ws)"
proof (induction ws rule: rev_induct)
  case Nil
  show ?case by (simp add: remaining_def)
next
  case (snoc w xs)
  let ?K = "\<lambda>ws i. kept ops cerr (remaining ops cerr a (take i ws)) (ws ! i)"
  let ?S = "\<lambda>ws i. satisfied ops cerr (remaining ops cerr a (take i ws)) (ws ! i)"
  have fk: "filter (?K (xs @ [w])) [0..<length xs] = filter (?K xs) [0..<length xs]"
    by (rule filter_cong) (auto simp: nth_append)
  have fs: "filter (?S (xs @ [w])) [0..<length xs] = filter (?S xs) [0..<length xs]"
    by (rule filter_cong) (auto simp: nth_append)
  have mk: "map (nth (xs @ [w])) (filter (?K xs) [0..<length xs]) = map (nth xs) (filter (?K xs) [0..<length xs])"
    by (rule map_cong) (auto simp: nth_append)
  have ms: "map (nth (xs @ [w])) (filter (?S xs) [0..<length xs]) = map (nth xs) (filter (?S xs) [0..<length xs])"
    by (rule map_cong) (auto simp: nth_append)
  have last: "?K (xs @ [w]) (length xs) = kept ops cerr (remaining ops cerr a xs) w"
    "?S (xs @ [w]) (length xs) = satisfied ops cerr (remaining ops cerr a xs) w"
    by simp_all
  have r: "snd (snd (scan ops cerr a xs)) = remaining ops cerr a xs"
    by (simp add: remaining_def)
  have idx: "[0..<length (xs @ [w])] = [0..<length xs] @ [length xs]"
    by simp
  show ?case
    unfolding scan_snoc snoc.IH idx filter_append map_append fk fs mk ms
    by (simp add: remaining_snoc)
qed

lemma keyed_by_id_update:
  "keyed_by_id m \<Longrightarrow> keyed_by_id (AList.update (InstanceId i) i m)"
  by (induction m) (auto simp: keyed_by_id_def)

lemma add_one_view:
  assumes "writable (File cl)"
  shows "pools (add New [i] cl) =
           update_discard (AList.update (InstanceId i) i (durable cl))
             (update_construct New (AList.update (InstanceId i) i (durable cl)) (pools cl))"
    and "Mux (add New [i] cl) = map snd (pools (add New [i] cl))"
  using assms by (simp_all add: add_one Marshal_def update_def Unmarshal_def Let_def)

lemma add_one_handles:
  assumes "writable (File cl)" and "keyed_by_id (durable cl)" and "distinct (map fst (durable cl))"
  shows "fst ` set (pools (add New [i] cl)) = insert (InstanceId i) (fst ` set (durable cl))"
    and "map_of (pools (add New [i] cl)) (InstanceId i) =
           (if nil_pool (pools cl) (InstanceId i) then Some (fst (New (baseurl i)))
            else map_of (pools cl) (InstanceId i))"
    and "k \<noteq> InstanceId i \<Longrightarrow>
         map_of (pools (add New [i] cl)) k =
           (case map_of (durable cl) k of
              None \<Rightarrow> None
            | Some inst \<Rightarrow>
                if nil_pool (pools cl) k then Some (fst (New (baseurl inst)))
                else map_of (pools cl) k)"
proof -
  let ?d = "AList.update (InstanceId i) i (durable cl)"
  have kb: "keyed_by_id ?d" by (rule keyed_by_id_update [OF assms(2)])
  have di: "distinct (map fst ?d)" by (rule distinct_update [OF assms(3)])
  note p = add_one_view(1) [OF assms(1), of New i]
  have keys: "fst ` set (update_construct New ?d (pools cl)) \<inter> fst ` set ?d = fst ` set ?d"
    using update_construct_covers [OF kb, of New "pools cl"] by blast
  show "fst ` set (pools (add New [i] cl)) = insert (InstanceId i) (fst ` set (durable cl))"
    unfolding p update_discard_keys keys by (simp add: dom_update)
  have m: "map_of (pools (add New [i] cl)) k =
           (case map_of ?d k of
              None \<Rightarrow> None
            | Some inst \<Rightarrow>
                if nil_pool (pools cl) k then Some (fst (New (baseurl inst)))
                else map_of (pools cl) k)" for k
    unfolding p update_discard_map_of update_construct_map_of [OF di kb]
    by (simp split: option.splits)
  show "map_of (pools (add New [i] cl)) (InstanceId i) =
           (if nil_pool (pools cl) (InstanceId i) then Some (fst (New (baseurl i)))
            else map_of (pools cl) (InstanceId i))"
    unfolding m by (simp add: update_conv')
  show "map_of (pools (add New [i] cl)) k =
           (case map_of (durable cl) k of
              None \<Rightarrow> None
            | Some inst \<Rightarrow>
                if nil_pool (pools cl) k then Some (fst (New (baseurl inst)))
                else map_of (pools cl) k)" if "k \<noteq> InstanceId i"
    unfolding m using that by (simp add: update_conv')
qed

text \<open>
  Claim C2. When a launch completes with no error, the loop adds the instance to the
  durable set and rebuilds the capacity view: if the state file can be written, the
  durable set afterwards is the old one with the instance stored under its id, the pool
  map is rebuilt from it and installed, with no handle for an id outside the durable set;
  with the durable entries stored under their own distinct ids, the pool map has a handle
  for exactly the durable ids, the one of the new instance being the one it had if live
  and otherwise what \<open>client.New\<close> returns for its address. The loop then scans the
  waiters in order, starting from the capacity of the new instance: a waiter whose context
  is done is dropped and not signalled; a waiter whose \<open>Min\<close> is less-or-equal in every
  dimension to the capacity still remaining is signalled and removed, and
  \<open>min(Max, remaining)\<close> is taken from the remaining capacity; every other waiter is
  kept, in order.
\<close>

theorem done_success:
  assumes "Err inst = None"
  shows "clus (done_case ops New env s inst) = add New [Instance inst] (clus s)
     \<and> add New [Instance inst] (clus s) =
         update New ((clus s)\<lparr>File := snd (Marshal (File (clus s))
            (AList.update (InstanceId (Instance inst)) (Instance inst) (durable (clus s))))\<rparr>)
     \<and> (writable (File (clus s)) \<longrightarrow>
           durable (clus (done_case ops New env s inst)) =
             AList.update (InstanceId (Instance inst)) (Instance inst) (durable (clus s))
         \<and> pools (clus (done_case ops New env s inst)) =
             update_discard (durable (clus (done_case ops New env s inst)))
               (update_construct New (durable (clus (done_case ops New env s inst))) (pools (clus s)))
         \<and> Mux (clus (done_case ops New env s inst)) = map snd (pools (clus (done_case ops New env s inst)))
         \<and> fst ` set (pools (clus (done_case ops New env s inst)))
               \<subseteq> fst ` set (durable (clus (done_case ops New env s inst))))
     \<and> (writable (File (clus s)) \<and> keyed_by_id (durable (clus s))
           \<and> distinct (map fst (durable (clus s))) \<longrightarrow>
           fst ` set (pools (clus (done_case ops New env s inst))) =
             insert (InstanceId (Instance inst)) (fst ` set (durable (clus s)))
         \<and> map_of (pools (clus (done_case ops New env s inst))) (InstanceId (Instance inst)) =
             (if nil_pool (pools (clus s)) (InstanceId (Instance inst))
              then Some (fst (New (baseurl (Instance inst))))
              else map_of (pools (clus s)) (InstanceId (Instance inst)))
         \<and> (\<forall>k. k \<noteq> InstanceId (Instance inst) \<longrightarrow>
               map_of (pools (clus (done_case ops New env s inst))) k =
                 (case map_of (durable (clus s)) k of
                    None \<Rightarrow> None
                  | Some i \<Rightarrow>
                      if nil_pool (pools (clus s)) k then Some (fst (New (baseurl i)))
                      else map_of (pools (clus s)) k)))
     \<and> waiters (done_case ops New env s inst) =
          map (nth (waiters s))
            (filter (\<lambda>i. kept ops (ctx_Err env)
                          (remaining ops (ctx_Err env) (Resources (Config inst)) (take i (waiters s)))
                          (waiters s ! i))
               [0..<length (waiters s)])
     \<and> notified (done_case ops New env s inst) =
          notified s @ map (\<lambda>i. ch (waiters s ! i))
            (filter (\<lambda>i. satisfied ops (ctx_Err env)
                          (remaining ops (ctx_Err env) (Resources (Config inst)) (take i (waiters s)))
                          (waiters s ! i))
               [0..<length (waiters s)])
     \<and> remaining ops (ctx_Err env) (Resources (Config inst)) (take 0 (waiters s)) = Resources (Config inst)
     \<and> (\<forall>i < length (waiters s).
           remaining ops (ctx_Err env) (Resources (Config inst)) (take (Suc i) (waiters s)) =
             (if ctx_Err env (ctx (waiters s ! i)) = None
                 \<and> LessEqualAll ops (req_Min (waiters s ! i))
                      (remaining ops (ctx_Err env) (Resources (Config inst)) (take i (waiters s)))
              then res_Sub ops
                     (remaining ops (ctx_Err env) (Resources (Config inst)) (take i (waiters s)))
                     (res_Min ops (req_Max (waiters s ! i))
                        (remaining ops (ctx_Err env) (Resources (Config inst)) (take i (waiters s))))
              else remaining ops (ctx_Err env) (Resources (Config inst)) (take i (waiters s))))"
proof -
  let ?a = "Resources (Config inst)"
  let ?ws = "waiters s"
  let ?i = "Instance inst"
  let ?s' = "done_case ops New env s inst"
  have 1: "clus ?s' = add New [?i] (clus s)"
    using assms by (simp add: done_case_def Let_def split: prod.splits)
  have 2: "add New [?i] (clus s) =
         update New ((clus s)\<lparr>File := snd (Marshal (File (clus s))
            (AList.update (InstanceId ?i) ?i (durable (clus s))))\<rparr>)"
    by (rule add_one)
  have d: "durable (clus ?s') = AList.update (InstanceId ?i) ?i (durable (clus s))"
    if "writable (File (clus s))"
    unfolding 1 2 using that by (simp add: durable_update) (simp add: durable_def Marshal_def)
  have 3: "writable (File (clus s)) \<longrightarrow>
           durable (clus ?s') = AList.update (InstanceId ?i) ?i (durable (clus s))
         \<and> pools (clus ?s') =
             update_discard (durable (clus ?s')) (update_construct New (durable (clus ?s')) (pools (clus s)))
         \<and> Mux (clus ?s') = map snd (pools (clus ?s'))
         \<and> fst ` set (pools (clus ?s')) \<subseteq> fst ` set (durable (clus ?s'))"
  proof
    assume w: "writable (File (clus s))"
    have p: "pools (clus ?s') =
             update_discard (durable (clus ?s')) (update_construct New (durable (clus ?s')) (pools (clus s)))"
      unfolding d [OF w] unfolding 1 by (rule add_one_view(1) [OF w])
    have mx: "Mux (clus ?s') = map snd (pools (clus ?s'))"
      unfolding 1 by (rule add_one_view(2) [OF w])
    have "fst ` set (pools (clus ?s')) \<subseteq> fst ` set (durable (clus ?s'))"
      by (subst p) (simp add: update_discard_keys)
    with d [OF w] p mx show "durable (clus ?s') = AList.update (InstanceId ?i) ?i (durable (clus s))
         \<and> pools (clus ?s') =
             update_discard (durable (clus ?s')) (update_construct New (durable (clus ?s')) (pools (clus s)))
         \<and> Mux (clus ?s') = map snd (pools (clus ?s'))
         \<and> fst ` set (pools (clus ?s')) \<subseteq> fst ` set (durable (clus ?s'))"
      by (intro conjI)
  qed
  have h3: "writable (File (clus s)) \<and> keyed_by_id (durable (clus s))
           \<and> distinct (map fst (durable (clus s))) \<longrightarrow>
           fst ` set (pools (clus ?s')) = insert (InstanceId ?i) (fst ` set (durable (clus s)))
         \<and> map_of (pools (clus ?s')) (InstanceId ?i) =
             (if nil_pool (pools (clus s)) (InstanceId ?i) then Some (fst (New (baseurl ?i)))
              else map_of (pools (clus s)) (InstanceId ?i))
         \<and> (\<forall>k. k \<noteq> InstanceId ?i \<longrightarrow>
               map_of (pools (clus ?s')) k =
                 (case map_of (durable (clus s)) k of
                    None \<Rightarrow> None
                  | Some i \<Rightarrow>
                      if nil_pool (pools (clus s)) k then Some (fst (New (baseurl i)))
                      else map_of (pools (clus s)) k))"
  proof
    assume "writable (File (clus s)) \<and> keyed_by_id (durable (clus s))
           \<and> distinct (map fst (durable (clus s)))"
    then have w: "writable (File (clus s))" and kb: "keyed_by_id (durable (clus s))"
      and di: "distinct (map fst (durable (clus s)))"
      by simp_all
    note A = add_one_handles [OF w kb di, where New = New and i = "Instance inst"]
    have "\<forall>k. k \<noteq> InstanceId ?i \<longrightarrow>
               map_of (pools (add New [?i] (clus s))) k =
                 (case map_of (durable (clus s)) k of
                    None \<Rightarrow> None
                  | Some i \<Rightarrow>
                      if nil_pool (pools (clus s)) k then Some (fst (New (baseurl i)))
                      else map_of (pools (clus s)) k)"
      using A(3) by blast
    with A(1,2) show "fst ` set (pools (clus ?s')) = insert (InstanceId ?i) (fst ` set (durable (clus s)))
         \<and> map_of (pools (clus ?s')) (InstanceId ?i) =
             (if nil_pool (pools (clus s)) (InstanceId ?i) then Some (fst (New (baseurl ?i)))
              else map_of (pools (clus s)) (InstanceId ?i))
         \<and> (\<forall>k. k \<noteq> InstanceId ?i \<longrightarrow>
               map_of (pools (clus ?s')) k =
                 (case map_of (durable (clus s)) k of
                    None \<Rightarrow> None
                  | Some i \<Rightarrow>
                      if nil_pool (pools (clus s)) k then Some (fst (New (baseurl i)))
                      else map_of (pools (clus s)) k))"
      unfolding 1 by (intro conjI)
  qed
  have 4: "waiters ?s' = fst (scan ops (ctx_Err env) ?a ?ws)"
    and 5: "notified ?s' = notified s @ map ch (fst (snd (scan ops (ctx_Err env) ?a ?ws)))"
    using assms by (simp_all add: done_case_def Let_def split: prod.splits)
  have w4: "waiters ?s' =
          map (nth ?ws)
            (filter (\<lambda>i. kept ops (ctx_Err env) (remaining ops (ctx_Err env) ?a (take i ?ws)) (?ws ! i))
               [0..<length ?ws])"
    unfolding 4 scan_index [of ops "ctx_Err env" ?a ?ws] by simp
  have n5: "notified ?s' =
          notified s @ map (\<lambda>i. ch (?ws ! i))
            (filter (\<lambda>i. satisfied ops (ctx_Err env) (remaining ops (ctx_Err env) ?a (take i ?ws)) (?ws ! i))
               [0..<length ?ws])"
    unfolding 5 scan_index [of ops "ctx_Err env" ?a ?ws] by (simp add: o_def)
  have 6: "remaining ops (ctx_Err env) ?a (take 0 ?ws) = ?a"
    by (simp add: remaining_Nil)
  have 7: "\<forall>i < length ?ws.
           remaining ops (ctx_Err env) ?a (take (Suc i) ?ws) =
             (if ctx_Err env (ctx (?ws ! i)) = None
                 \<and> LessEqualAll ops (req_Min (?ws ! i)) (remaining ops (ctx_Err env) ?a (take i ?ws))
              then res_Sub ops (remaining ops (ctx_Err env) ?a (take i ?ws))
                     (res_Min ops (req_Max (?ws ! i)) (remaining ops (ctx_Err env) ?a (take i ?ws)))
              else remaining ops (ctx_Err env) ?a (take i ?ws))"
    by (simp add: take_Suc_conv_app_nth remaining_snoc consume_def satisfied_def)
  from 1 2 3 h3 w4 n5 6 7 show ?thesis by (intro conjI)
qed

theorem done_success_witness:
  "Err ex_launched = None \<and> writable (File (clus ex_waiting))
   \<and> keyed_by_id (durable (clus ex_waiting)) \<and> distinct (map fst (durable (clus ex_waiting)))
   \<and> durable (clus (done_case int_ops ex_New ex_env_cancel ex_waiting ex_launched))
       = [(''i-1'', ex_inst ''i-1'' ''running'')]
   \<and> pools (clus ex_waiting) = []
   \<and> pools (clus (done_case int_ops ex_New ex_env_cancel ex_waiting ex_launched))
       = [(''i-1'', Some ''https://i-1.ec2:9000/v1/'')]
   \<and> Mux (clus (done_case int_ops ex_New ex_env_cancel ex_waiting ex_launched))
       = [Some ''https://i-1.ec2:9000/v1/'']
   \<and> map_of (pools (clus (done_case int_ops ex_New ex_env_cancel ex_waiting ex_launched))) ''i-1''
       = Some (Some ''https://i-1.ec2:9000/v1/'')
   \<and> waiters (done_case int_ops ex_New ex_env_cancel ex_waiting ex_launched) = [ex_waiter 3 3 6]
   \<and> notified (done_case int_ops ex_New ex_env_cancel ex_waiting ex_launched) = [5, 8]"
proof -
  have e: "Err ex_launched = None"
    by (simp add: ex_launched_def)
  have w: "writable (File (clus ex_waiting))"
    by (simp add: ex_waiting_def ex_cluster_def)
  have ws: "waiters ex_waiting = [ex_waiter 1 2 5, ex_waiter 3 3 6, ex_waiter 1 1 7, ex_waiter 1 5 8]"
    and n: "notified ex_waiting = []"
    and d: "durable (clus ex_waiting) = []"
    and ps: "pools (clus ex_waiting) = []"
    by (simp_all add: ex_waiting_def durable_def ex_cluster_def)
  have kd: "keyed_by_id (durable (clus ex_waiting))" "distinct (map fst (durable (clus ex_waiting)))"
    unfolding d by (simp_all add: keyed_by_id_def)
  have a: "Resources (Config ex_launched) = 4" "Instance ex_launched = ex_inst ''i-1'' ''running''"
    by (simp_all add: ex_launched_def ex_big_def)
  have i: "InstanceId (ex_inst ''i-1'' ''running'') = ''i-1''"
    by (simp add: ex_inst_def)
  have r: "remaining int_ops (ctx_Err ex_env_cancel) 4 [] = 4"
     "remaining int_ops (ctx_Err ex_env_cancel) 4 [ex_waiter 1 2 5] = 2"
     "remaining int_ops (ctx_Err ex_env_cancel) 4 [ex_waiter 1 2 5, ex_waiter 3 3 6] = 2"
     "remaining int_ops (ctx_Err ex_env_cancel) 4 [ex_waiter 1 2 5, ex_waiter 3 3 6, ex_waiter 1 1 7] = 2"
    by (simp_all add: remaining_def int_ops_def ex_env_cancel_def ex_waiter_def)
  have k: "kept int_ops (ctx_Err ex_env_cancel) 4 (ex_waiter 1 2 5) = False"
      "kept int_ops (ctx_Err ex_env_cancel) 2 (ex_waiter 3 3 6) = True"
      "kept int_ops (ctx_Err ex_env_cancel) 2 (ex_waiter 1 1 7) = False"
      "kept int_ops (ctx_Err ex_env_cancel) 2 (ex_waiter 1 5 8) = False"
    and sat: "satisfied int_ops (ctx_Err ex_env_cancel) 4 (ex_waiter 1 2 5) = True"
      "satisfied int_ops (ctx_Err ex_env_cancel) 2 (ex_waiter 3 3 6) = False"
      "satisfied int_ops (ctx_Err ex_env_cancel) 2 (ex_waiter 1 1 7) = False"
      "satisfied int_ops (ctx_Err ex_env_cancel) 2 (ex_waiter 1 5 8) = True"
    by (simp_all add: kept_def satisfied_def int_ops_def ex_env_cancel_def ex_waiter_def)
  have u: "[0..<length [ex_waiter 1 2 5, ex_waiter 3 3 6, ex_waiter 1 1 7, ex_waiter 1 5 8]] = [0, 1, 2, 3]"
    by (simp add: upt_rec)
  have c: "ch (ex_waiter 1 2 5) = 5" "ch (ex_waiter 1 5 8) = 8"
    by (simp_all add: ex_waiter_def)
  note T = done_success [OF e, of int_ops ex_New ex_env_cancel ex_waiting]
  note V = T [THEN conjunct2, THEN conjunct2, THEN conjunct1, rule_format, OF w]
  have D: "durable (clus (done_case int_ops ex_New ex_env_cancel ex_waiting ex_launched))
       = [(''i-1'', ex_inst ''i-1'' ''running'')]"
    using V [THEN conjunct1] unfolding d a i by simp
  have P: "pools (clus (done_case int_ops ex_New ex_env_cancel ex_waiting ex_launched))
       = [(''i-1'', Some ''https://i-1.ec2:9000/v1/'')]"
    using V [THEN conjunct2, THEN conjunct1] unfolding D ps
    by (simp add: update_discard_def nil_pool_def ex_inst_def ex_New_def baseurl_def)
  have M: "Mux (clus (done_case int_ops ex_New ex_env_cancel ex_waiting ex_launched))
       = [Some ''https://i-1.ec2:9000/v1/'']"
    using V [THEN conjunct2, THEN conjunct2, THEN conjunct1] unfolding P by simp
  have H: "map_of (pools (clus (done_case int_ops ex_New ex_env_cancel ex_waiting ex_launched))) ''i-1''
       = Some (Some ''https://i-1.ec2:9000/v1/'')"
    using T [THEN conjunct2, THEN conjunct2, THEN conjunct2, THEN conjunct1] w kd
    unfolding a i ps
    by (simp add: nil_pool_def ex_inst_def ex_New_def baseurl_def)
  have W: "waiters (done_case int_ops ex_New ex_env_cancel ex_waiting ex_launched) = [ex_waiter 3 3 6]"
    using T [THEN conjunct2, THEN conjunct2, THEN conjunct2, THEN conjunct2, THEN conjunct1]
    unfolding ws a u by (simp add: r k)
  have N: "notified (done_case int_ops ex_New ex_env_cancel ex_waiting ex_launched) = [5, 8]"
    using T [THEN conjunct2, THEN conjunct2, THEN conjunct2, THEN conjunct2, THEN conjunct2, THEN conjunct1]
    unfolding ws n a u by (simp add: r sat c)
  from e w kd D ps P M H W N show ?thesis by (intro conjI)
qed

section \<open>Properties of the allocation coordinator\<close>

lemma retry_loop_returned_reg:
  "returned (retry_loop req reg es) = returned (retry_loop req reg' es)"
proof (induction es arbitrary: reg reg')
  case Nil
  show ?case by simp
next
  case (Cons ev es)
  show ?case
  proof (cases ev)
    case (CtxDone err)
    then show ?thesis by simp
  next
    case (NeedCh r)
    obtain alloc err where r: "r = (alloc, err)" by (cases r)
    show ?thesis
      using Cons [of "reg @ [req]" "reg' @ [req]"] NeedCh r by simp
  next
    case (Tick r)
    obtain alloc err where r: "r = (alloc, err)" by (cases r)
    show ?thesis
      using Cons [of reg reg'] Tick r by simp
  qed
qed

lemma retry_loop_first:
  "list_all goes_on pre \<Longrightarrow>
     returned (retry_loop req reg (pre @ rest)) = returned (retry_loop req reg rest)"
proof (induction pre arbitrary: reg)
  case Nil
  then show ?case by simp
next
  case (Cons ev pre)
  then have g: "goes_on ev" and p: "list_all goes_on pre" by simp_all
  show ?case
  proof (cases ev)
    case (CtxDone err)
    with g show ?thesis by (simp add: goes_on_def)
  next
    case (NeedCh r)
    with g obtain alloc e where r: "r = (alloc, Some e)"
      by (cases r) (auto simp: goes_on_def)
    have "returned (retry_loop req reg ((ev # pre) @ rest)) =
            returned (retry_loop req (reg @ [req]) (pre @ rest))"
      using NeedCh r by simp
    also have "\<dots> = returned (retry_loop req (reg @ [req]) rest)"
      by (rule Cons.IH [OF p])
    also have "\<dots> = returned (retry_loop req reg rest)"
      by (rule retry_loop_returned_reg)
    finally show ?thesis .
  next
    case (Tick r)
    with g obtain alloc e where r: "r = (alloc, Some e)"
      by (cases r) (auto simp: goes_on_def)
    have "returned (retry_loop req reg ((ev # pre) @ rest)) =
            returned (retry_loop req reg (pre @ rest))"
      using Tick r by simp
    also have "\<dots> = returned (retry_loop req reg rest)"
      by (rule Cons.IH [OF p])
    finally show ?thesis .
  qed
qed

lemma retry_loop_all_go_on:
  assumes "list_all goes_on es"
  shows "returned (retry_loop req reg es) = None"
  using retry_loop_first [OF assms, of req reg "[]"] by simp

lemma retry_loop_returned:
  "returned (retry_loop req reg es) = Some r \<Longrightarrow>
     \<exists>pre ev post. es = pre @ ev # post \<and> list_all goes_on pre \<and>
        ((\<exists>err. ev = CtxDone err \<and> r = (None, Some err))
         \<or> (\<exists>alloc. (ev = NeedCh (alloc, None) \<or> ev = Tick (alloc, None)) \<and> r = (alloc, None)))"
proof (induction es arbitrary: reg)
  case Nil
  then show ?case by simp
next
  case (Cons e es)
  show ?case
  proof (cases "goes_on e")
    case True
    then have "returned (retry_loop req reg (e # es)) = returned (retry_loop req reg es)"
      using retry_loop_first [of "[e]" req reg es] by simp
    with Cons.prems have "returned (retry_loop req reg es) = Some r" by simp
    from Cons.IH [OF this] obtain pre ev post where
      h: "es = pre @ ev # post" "list_all goes_on pre"
         "(\<exists>err. ev = CtxDone err \<and> r = (None, Some err))
         \<or> (\<exists>alloc. (ev = NeedCh (alloc, None) \<or> ev = Tick (alloc, None)) \<and> r = (alloc, None))"
      by blast
    from h True have "e # es = (e # pre) @ ev # post \<and> list_all goes_on (e # pre) \<and>
        ((\<exists>err. ev = CtxDone err \<and> r = (None, Some err))
         \<or> (\<exists>alloc. (ev = NeedCh (alloc, None) \<or> ev = Tick (alloc, None)) \<and> r = (alloc, None)))"
      by simp
    then show ?thesis by (intro exI)
  next
    case False
    have "(\<exists>err. e = CtxDone err \<and> r = (None, Some err))
         \<or> (\<exists>alloc. (e = NeedCh (alloc, None) \<or> e = Tick (alloc, None)) \<and> r = (alloc, None))"
    proof (cases e)
      case (CtxDone err)
      with Cons.prems show ?thesis by auto
    next
      case (NeedCh x)
      obtain alloc err where x: "x = (alloc, err)" by (cases x)
      with False NeedCh have "err = None" by (simp add: goes_on_def)
      with Cons.prems NeedCh x show ?thesis by auto
    next
      case (Tick x)
      obtain alloc err where x: "x = (alloc, err)" by (cases x)
      with False Tick have "err = None" by (simp add: goes_on_def)
      with Cons.prems Tick x show ?thesis by auto
    qed
    then have "e # es = [] @ e # es \<and> list_all goes_on [] \<and>
        ((\<exists>err. e = CtxDone err \<and> r = (None, Some err))
         \<or> (\<exists>alloc. (e = NeedCh (alloc, None) \<or> e = Tick (alloc, None)) \<and> r = (alloc, None)))"
      by simp
    then show ?thesis by (intro exI)
  qed
qed

text \<open>
  Claim C6. Once \<open>Allocate\<close> is in its retry loop it returns only when an allocation
  attempt succeeds, with that alloc and a nil error, or when the context is done, with a
  nil alloc and the context's own error; the first such event decides. As long as every
  event is a failed attempt, it has not returned, however many there are.
\<close>

theorem allocate_retry_loop:
  assumes "Available ops configs (req_Min req)" and "\<not> (sz > 0 \<and> snd first = None)"
  shows "(list_all goes_on es \<longrightarrow> returned (Allocate ops configs sz first es req) = None)
     \<and> (\<forall>pre err post. es = pre @ CtxDone err # post \<and> list_all goes_on pre \<longrightarrow>
           returned (Allocate ops configs sz first es req) = Some (None, Some err))
     \<and> (\<forall>pre alloc post. es = pre @ NeedCh (alloc, None) # post \<and> list_all goes_on pre \<longrightarrow>
           returned (Allocate ops configs sz first es req) = Some (alloc, None))
     \<and> (\<forall>pre alloc post. es = pre @ Tick (alloc, None) # post \<and> list_all goes_on pre \<longrightarrow>
           returned (Allocate ops configs sz first es req) = Some (alloc, None))
     \<and> (\<forall>r. returned (Allocate ops configs sz first es req) = Some r \<longrightarrow>
           (\<exists>pre ev post. es = pre @ ev # post \<and> list_all goes_on pre \<and>
              ((\<exists>err. ev = CtxDone err \<and> r = (None, Some err))
               \<or> (\<exists>alloc. (ev = NeedCh (alloc, None) \<or> ev = Tick (alloc, None)) \<and> r = (alloc, None)))))"
proof -
  have a: "Allocate ops configs sz first es req = retry_loop req [req] es"
    using assms by (auto simp: Allocate_def)
  have 1: "list_all goes_on es \<longrightarrow> returned (retry_loop req [req] es) = None"
    by (simp add: retry_loop_all_go_on)
  have 2: "\<forall>pre err post. es = pre @ CtxDone err # post \<and> list_all goes_on pre \<longrightarrow>
           returned (retry_loop req [req] es) = Some (None, Some err)"
    by (auto simp: retry_loop_first)
  have 3: "\<forall>pre alloc post. es = pre @ NeedCh (alloc, None) # post \<and> list_all goes_on pre \<longrightarrow>
           returned (retry_loop req [req] es) = Some (alloc, None)"
    by (auto simp: retry_loop_first)
  have 4: "\<forall>pre alloc post. es = pre @ Tick (alloc, None) # post \<and> list_all goes_on pre \<longrightarrow>
           returned (retry_loop req [req] es) = Some (alloc, None)"
    by (auto simp: retry_loop_first)
  have 5: "\<forall>r. returned (retry_loop req [req] es) = Some r \<longrightarrow>
           (\<exists>pre ev post. es = pre @ ev # post \<and> list_all goes_on pre \<and>
              ((\<exists>err. ev = CtxDone err \<and> r = (None, Some err))
               \<or> (\<exists>alloc. (ev = NeedCh (alloc, None) \<or> ev = Tick (alloc, None)) \<and> r = (alloc, None))))"
    using retry_loop_returned by blast
  from 1 2 3 4 5 show ?thesis unfolding a by simp
qed

theorem allocate_retry_loop_witness:
  "Available int_ops [ex_small] (req_Min \<lparr>req_Min = 1, req_Max = 1\<rparr>)
   \<and> returned (Allocate int_ops [ex_small] 0 (None, None)
        [Tick (None, Some (ErrOther ''no capacity'')), NeedCh (None, Some ErrDeadlineExceeded),
         CtxDone ErrCanceled, Tick (Some ''alloc'', None)]
        \<lparr>req_Min = 1, req_Max = 1\<rparr>) = Some (None, Some ErrCanceled)
   \<and> returned (Allocate int_ops [ex_small] 0 (None, None)
        [Tick (None, Some (ErrOther ''no capacity'')), NeedCh (None, Some ErrDeadlineExceeded)]
        \<lparr>req_Min = 1, req_Max = 1\<rparr>) = (None :: (string option \<times> error option) option)"
proof -
  let ?req = "\<lparr>req_Min = 1, req_Max = 1\<rparr> :: int requirements"
  let ?pre = "[Tick (None, Some (ErrOther ''no capacity'')), NeedCh (None, Some ErrDeadlineExceeded)]
                :: string select_event list"
  have a: "Available int_ops [ex_small] (req_Min ?req)"
    by (simp add: Available_def int_ops_def ex_small_def)
  have b: "\<not> ((0::int) > 0 \<and> snd (None :: string option, None :: error option) = None)"
    by simp
  have g: "list_all goes_on ?pre"
    by (simp add: goes_on_def)
  have 1: "returned (Allocate int_ops [ex_small] 0 (None, None)
        (?pre @ CtxDone ErrCanceled # [Tick (Some ''alloc'', None)]) ?req) = Some (None, Some ErrCanceled)"
    using allocate_retry_loop [OF a b, of "?pre @ CtxDone ErrCanceled # [Tick (Some ''alloc'', None)]"] g
    by blast
  have 2: "returned (Allocate int_ops [ex_small] 0 (None, None) ?pre ?req) = None"
    using allocate_retry_loop [OF a b, of ?pre] g by blast
  from a 1 2 show ?thesis by simp
qed

text \<open>
  Claim C7. If the requirement's \<open>Min\<close> is covered by no configured instance type,
  \<open>Allocate\<close> returns a resources-exhausted error at once, whatever the pools and the
  events would have been, and has registered no waiter with the grower loop, which alone
  starts launches.
\<close>

theorem allocate_unsatisfiable:
  assumes "\<forall>config \<in> set configs. \<not> LessEqualAll ops (req_Min req) (Resources config)"
  shows "Allocate ops configs sz first es req =
           \<lparr>returned = Some (None, Some ErrResourcesExhausted), registered = []\<rparr>"
  using assms by (simp add: Allocate_def Available_def list_ex_iff)

theorem allocate_unsatisfiable_witness:
  "\<not> LessEqualAll int_ops (req_Min \<lparr>req_Min = 2, req_Max = 3\<rparr>) (Resources ex_small)
   \<and> Allocate int_ops [ex_small] 1 (Some ''alloc'', None) [Tick (Some ''alloc'', None)]
        \<lparr>req_Min = 2, req_Max = 3\<rparr>
      = \<lparr>returned = Some (None, Some ErrResourcesExhausted), registered = []\<rparr>"
proof -
  have h: "\<forall>config \<in> set [ex_small].
      \<not> LessEqualAll int_ops (req_Min \<lparr>req_Min = 2, req_Max = 3\<rparr>) (Resources config)"
    by (simp add: int_ops_def ex_small_def)
  from allocate_unsatisfiable [OF h, of 1 "(Some ''alloc'', None)" "[Tick (Some ''alloc'', None)]"] h
  show ?thesis by simp
qed

end
